theory Spec2Isabelle
  imports Complex_Main
begin

section \<open>Orientation correction (node-zerox/src/utils.ts, lines 148-215)\<close>

subsection \<open>getTextFromImage\<close>

text \<open>
  The image library (sharp) and the recogniser (Tesseract) are collaborators of the
  function. Each of their calls either resolves to a result or throws, so each is a
  function into \<open>'e + result\<close> (\<open>Inl\<close> the thrown value) and the three of them are
  parameters of the model: \<open>sharp_metadata\<close> is \<open>sharp(buffer)\<close> followed by
  \<open>image.metadata()\<close>, \<open>sharp_extract\<close> is \<open>image.extract(...).toBuffer()\<close> and
  \<open>tesseract_recognize\<close> is \<open>Tesseract.recognize(croppedBuffer, "eng")\<close> with the
  \<open>data.confidence\<close> of what it resolves to. A JavaScript number that may be \<open>NaN\<close>
  is a \<open>jsnum\<close>.
\<close>

datatype jsnum = Num int | NaN

record Metadata =
  md_width :: "int option"
  md_height :: "int option"

record Region =
  rg_left :: jsnum
  rg_top :: int
  rg_width :: int
  rg_height :: int

record ('b, 'e) Collaborators =
  sharp_metadata :: "'b \<Rightarrow> 'e + Metadata"
  sharp_extract :: "'b \<Rightarrow> Region \<Rightarrow> 'e + 'b"
  tesseract_recognize :: "'b \<Rightarrow> 'e + real"

text \<open>
  \<open>Math.max(0, Math.floor((metadata.width! - cropWidth) / 2))\<close>: an absent width is
  \<open>undefined\<close>, the subtraction gives \<open>NaN\<close> and \<open>NaN\<close> goes through \<open>floor\<close> and
  \<open>max\<close>. On integers \<open>div\<close> rounds down as \<open>Math.floor\<close> of the quotient does.
\<close>

definition cropWidth :: int where
  "cropWidth = 150"

definition cropLeft :: "int option \<Rightarrow> jsnum" where
  "cropLeft w = (case w of None \<Rightarrow> NaN | Some x \<Rightarrow> Num (max 0 ((x - cropWidth) div 2)))"

text \<open>\<open>metadata.height || 0\<close>: an absent height and the height 0 both give 0.\<close>

definition cropHeight :: "int option \<Rightarrow> int" where
  "cropHeight h = (case h of None \<Rightarrow> 0 | Some x \<Rightarrow> x)"

text \<open>The body of the \<open>try\<close> block: the first call that throws ends it.\<close>

definition tryOcr :: "('b, 'e) Collaborators \<Rightarrow> 'b \<Rightarrow> 'e + real" where
  "tryOcr env buffer =
     (case sharp_metadata env buffer of
        Inl e \<Rightarrow> Inl e
      | Inr metadata \<Rightarrow>
          (case sharp_extract env buffer
                  \<lparr>rg_left = cropLeft (md_width metadata), rg_top = 0,
                   rg_width = cropWidth, rg_height = cropHeight (md_height metadata)\<rparr> of
             Inl e \<Rightarrow> Inl e
           | Inr croppedBuffer \<Rightarrow>
               (case tesseract_recognize env croppedBuffer of
                  Inl e \<Rightarrow> Inl e
                | Inr confidence \<Rightarrow> Inr confidence)))"

text \<open>
  The function with its \<open>catch\<close>. The result is \<open>Inl\<close> when the function itself throws
  and \<open>Inr (confidence, log)\<close> when it returns, \<open>log\<close> being what it wrote with
  \<open>console.error\<close>.
\<close>

definition getTextFromImage :: "('b, 'e) Collaborators \<Rightarrow> 'b \<Rightarrow> 'e + (real \<times> 'e list)" where
  "getTextFromImage env buffer =
     (case tryOcr env buffer of
        Inr confidence \<Rightarrow> Inr (confidence, [])
      | Inl err \<Rightarrow> Inr (0, [err]))"

subsection \<open>determineOptimalRotation\<close>


record RotationResult =
  rotation :: nat
  confidence :: real

definition rotations :: "nat list" where
  "rotations = [0, 90, 180, 270]"

text \<open>
  \<open>Array.prototype.reduce\<close> without an initial value: the first element starts the
  accumulator, and an empty array is a TypeError (\<open>None\<close>).
\<close>

fun reduce :: "('a \<Rightarrow> 'a \<Rightarrow> 'a) \<Rightarrow> 'a list \<Rightarrow> 'a option" where
  "reduce f [] = None"
| "reduce f (x # xs) = Some (foldl f x xs)"

text \<open>
  \<open>ocr r\<close> is the confidence \<open>getTextFromImage\<close> returns for the image rotated by
  \<open>r\<close> degrees; \<open>Promise.all\<close> keeps the results in the order of \<open>rotations\<close>.
\<close>

definition trialResults :: "(nat \<Rightarrow> real) \<Rightarrow> RotationResult list" where
  "trialResults ocr = map (\<lambda>r. \<lparr>rotation = r, confidence = ocr r\<rparr>) rotations"

definition better :: "RotationResult \<Rightarrow> RotationResult \<Rightarrow> RotationResult" where
  "better best current = (if confidence current > confidence best then current else best)"

definition bestResult :: "(nat \<Rightarrow> real) \<Rightarrow> RotationResult option" where
  "bestResult ocr = reduce better (trialResults ocr)"




section \<open>Tree flattening (node-zerox/src/utils.ts, lines 323-522)\<close>

subsection \<open>Data\<close>

text \<open>
  A node of the parsed markdown tree, as the flattening reads it: \<open>node.type\<close>,
  \<open>node.depth\<close> (read on headings only), \<open>node.value\<close> (read on literal kinds only)
  and \<open>node.children\<close> (read on the other kinds). The parser is a collaborator, and the
  tree is taken as it hands it over: a string, a number and an array where the code
  reads them.
\<close>

datatype AstNode =
  AstNode (ast_type: string) (ast_depth: nat) (ast_value: string) (ast_children: "AstNode list")

text \<open>
  Modelled from the spec: the enums \<open>MdNodeType\<close> and \<open>ConvertedNodeType\<close> are declared
  in \<open>types.ts\<close>, which is not among the sources. The members of \<open>MdNodeType\<close> that
  \<open>utils.ts\<close> names are compared with the \<open>type\<close> of the parser's nodes, so each one
  holds the parser's name of that kind, which is the member's own name.
  \<open>ConvertedNodeType\<close> is a string enum of which only the member \<open>text\<close> is named in
  \<open>utils.ts\<close>; the enum object is a parameter \<open>E\<close> of the model, a map from member
  names to member values.
\<close>

definition MdNodeType_break :: string where
  "MdNodeType_break = ''break''"

definition MdNodeType_code :: string where
  "MdNodeType_code = ''code''"

definition MdNodeType_definition :: string where
  "MdNodeType_definition = ''definition''"

definition MdNodeType_heading :: string where
  "MdNodeType_heading = ''heading''"

definition MdNodeType_html :: string where
  "MdNodeType_html = ''html''"

definition MdNodeType_image :: string where
  "MdNodeType_image = ''image''"

definition MdNodeType_imageReference :: string where
  "MdNodeType_imageReference = ''imageReference''"

definition MdNodeType_inlineCode :: string where
  "MdNodeType_inlineCode = ''inlineCode''"

definition MdNodeType_list :: string where
  "MdNodeType_list = ''list''"

definition MdNodeType_listItem :: string where
  "MdNodeType_listItem = ''listItem''"

definition MdNodeType_text :: string where
  "MdNodeType_text = ''text''"

definition MdNodeType_thematicBreak :: string where
  "MdNodeType_thematicBreak = ''thematicBreak''"

type_synonym enum = "string \<rightharpoonup> string"

text \<open>\<open>ConvertedNodeType.text\<close>; \<open>None\<close> is \<open>undefined\<close>.\<close>

definition ConvertedNodeType_text :: "enum \<Rightarrow> string option" where
  "ConvertedNodeType_text E = E ''text''"

text \<open>
  \<open>ConvertedNodeType[node.type as ConvertedNodeType] || ConvertedNodeType.text\<close>: the
  member of that name when there is one and its value is truthy (not the empty
  string), the member \<open>text\<close> otherwise.
\<close>

definition convertedType :: "enum \<Rightarrow> string \<Rightarrow> string option" where
  "convertedType E t =
     (case E t of
        Some v \<Rightarrow> (if v \<noteq> '''' then Some v else ConvertedNodeType_text E)
      | None \<Rightarrow> ConvertedNodeType_text E)"

text \<open>
  A \<open>ProcessedNode\<close> object and the values its \<open>value\<close> field takes at run time: a
  string, an array (the value of a list node), a node object or \<open>undefined\<close> (what
  \<open>processListItem\<close> returns as \<open>node\<close>), and \<open>NaN\<close> (what \<open>+=\<close> gives on two
  \<open>undefined\<close>). \<open>page\<close> and \<open>parentId\<close> are \<open>None\<close> when the field is absent or
  \<open>undefined\<close>. An id is what \<open>nanoid()\<close> returned.
\<close>

datatype ProcessedNode =
  ProcessedNode (node_id: nat) (node_page: "int option") (node_parentId: "nat option")
    (node_type: "string option") (node_value: JsValue)
and JsValue =
  VString string | VArray "JsValue list" | VNode ProcessedNode | VUndefined | VNaN

record Processed =
  mainNode :: ProcessedNode
  siblings :: "ProcessedNode list"

record ParentId =
  pid_id :: nat
  pid_depth :: nat

subsection \<open>JavaScript's conversions of values to strings\<close>

text \<open>
  \<open>toStr\<close> is \<open>String(v)\<close>: an array is its elements joined with a comma, an object
  is \<open>[object Object]\<close>. \<open>joinWith sep\<close> is \<open>Array.prototype.join\<close>, in which an
  \<open>undefined\<close> element is the empty string.
\<close>

fun toStr :: "JsValue \<Rightarrow> string"
and joinWith :: "string \<Rightarrow> JsValue list \<Rightarrow> string" where
  "toStr (VString s) = s"
| "toStr (VArray vs) = joinWith '','' vs"
| "toStr (VNode n) = ''[object Object]''"
| "toStr VUndefined = ''undefined''"
| "toStr VNaN = ''NaN''"
| "joinWith sep [] = ''''"
| "joinWith sep [v] = (if v = VUndefined then '''' else toStr v)"
| "joinWith sep (v # w # vs) =
     (if v = VUndefined then '''' else toStr v) @ sep @ joinWith sep (w # vs)"

text \<open>
  \<open>a + b\<close> as \<open>newNode.value += ...\<close> computes it: strings, arrays and objects make it
  a concatenation of strings; two operands that are each \<open>undefined\<close> or \<open>NaN\<close> are
  added as numbers, which gives \<open>NaN\<close>.
\<close>

definition jsPlus :: "JsValue \<Rightarrow> JsValue \<Rightarrow> JsValue" where
  "jsPlus a b =
     (if (a = VUndefined \<or> a = VNaN) \<and> (b = VUndefined \<or> b = VNaN) then VNaN
      else VString (toStr a @ toStr b))"

subsection \<open>The dispatch of processNode\<close>

definition literals :: "string list" where
  "literals = [MdNodeType_code, MdNodeType_html, MdNodeType_inlineCode, MdNodeType_text]"

definition ignoreNodeTypes :: "string list" where
  "ignoreNodeTypes = [MdNodeType_break, MdNodeType_definition, MdNodeType_image,
     MdNodeType_imageReference, MdNodeType_thematicBreak]"

text \<open>
  The four entries of the object \<open>nodeProcessors\<close>, by key. (\<open>node.type in
  nodeProcessors\<close> is read on the object's own keys: the property names every object
  inherits, such as \<open>constructor\<close>, are not kinds of nodes of a markdown tree.)
\<close>

datatype Processor = P_literal | P_list | P_listItem | P_parent

definition nodeProcessors :: "string \<rightharpoonup> Processor" where
  "nodeProcessors = map_of [(''literal'', P_literal), (MdNodeType_list, P_list),
     (MdNodeType_listItem, P_listItem), (''parent'', P_parent)]"

text \<open>The \<open>if\<close> chain of \<open>processNode\<close>; \<open>None\<close> is its bare \<open>return\<close>.\<close>

definition selectProcessor :: "string \<Rightarrow> Processor option" where
  "selectProcessor t =
     (if t \<in> set literals then Some P_literal
      else if nodeProcessors t \<noteq> None then nodeProcessors t
      else if t \<notin> set ignoreNodeTypes then Some P_parent
      else None)"

definition gatherValue :: "Processed option list \<Rightarrow> JsValue list" where
  "gatherValue result =
     map (\<lambda>r. node_value (mainNode (the r))) (filter (\<lambda>r. r \<noteq> None) result)"

definition gatherSiblings :: "Processed option list \<Rightarrow> ProcessedNode list" where
  "gatherSiblings result =
     foldl (\<lambda>acc r. case r of Some p \<Rightarrow> acc @ siblings p | None \<Rightarrow> acc) [] result"

subsection \<open>processNode and processListItem\<close>

text \<open>
  \<open>nanoid()\<close> is a supply of fresh identifiers: the last argument \<open>s\<close> of each function
  is the number of identifiers drawn so far, a call of \<open>nanoid()\<close> returns \<open>s\<close> and
  leaves \<open>Suc s\<close>, and each function returns the supply it leaves beside its result.

  \<open>processNode\<close> runs the processor first and draws the main node's id when it builds
  the object it returns. \<open>mapProcessNode\<close> is \<open>node.children.map((childNode) =>
  processNode(childNode, page))\<close>, and \<open>forEachItemChild\<close> is the \<open>forEach\<close> of
  \<open>processListItem\<close> from the child it is at, with the variables \<open>newNode\<close> and
  \<open>siblings\<close> of the function as arguments.
\<close>

fun processNode ::
  "enum \<Rightarrow> AstNode \<Rightarrow> int \<Rightarrow> nat option \<Rightarrow> nat \<Rightarrow> Processed option \<times> nat"
and mapProcessNode ::
  "enum \<Rightarrow> AstNode list \<Rightarrow> int \<Rightarrow> nat \<Rightarrow> Processed option list \<times> nat"
and forEachItemChild ::
  "enum \<Rightarrow> AstNode list \<Rightarrow> int \<Rightarrow> ProcessedNode option \<Rightarrow> ProcessedNode list \<Rightarrow> nat
     \<Rightarrow> (ProcessedNode option \<times> ProcessedNode list) \<times> nat" where
  "processNode E (AstNode t d v cs) page parentId s =
     (case selectProcessor t of
        None \<Rightarrow> (None, s)
      | Some proc \<Rightarrow>
          (let ((val, sibs), s1) =
             (case proc of
                P_literal \<Rightarrow> ((VString v, []), s)
              | P_list \<Rightarrow>
                  (let (result, s') = mapProcessNode E cs page s
                   in ((VArray (gatherValue result), gatherSiblings result), s'))
              | P_listItem \<Rightarrow>
                  (let ((newNode, sibs), s') = forEachItemChild E cs page None [] s
                   in (((case newNode of None \<Rightarrow> VUndefined | Some n \<Rightarrow> VNode n), sibs), s'))
              | P_parent \<Rightarrow>
                  (let (result, s') = mapProcessNode E cs page s
                   in ((VString (joinWith '' '' (gatherValue result)), gatherSiblings result),
                       s')))
           in (Some \<lparr>mainNode = ProcessedNode s1 (Some page) parentId (convertedType E t) val,
                     siblings = sibs\<rparr>, Suc s1)))"
| "mapProcessNode E [] page s = ([], s)"
| "mapProcessNode E (c # cs) page s =
     (let (r, s1) = processNode E c page None s;
          (rs, s2) = mapProcessNode E cs page s1
      in (r # rs, s2))"
| "forEachItemChild E [] page newNode sibs s = ((newNode, sibs), s)"
| "forEachItemChild E (c # cs) page newNode sibs s =
     (if ast_type c \<noteq> MdNodeType_list then
        (case processNode E c page None s of
           (None, s1) \<Rightarrow> forEachItemChild E cs page newNode sibs s1
         | (Some p, s1) \<Rightarrow>
             forEachItemChild E cs page
               (case newNode of
                  Some n \<Rightarrow>
                    Some (ProcessedNode (node_id n) (node_page n) (node_parentId n) (node_type n)
                            (jsPlus (node_value n) (node_value (mainNode p))))
                | None \<Rightarrow> Some (mainNode p))
               (sibs @ siblings p) s1)
      else
        (let (n, s1) =
               (case newNode of
                  Some n \<Rightarrow> (n, s)
                | None \<Rightarrow>
                    (ProcessedNode s None None (ConvertedNodeType_text E) (VString ''''), Suc s))
         in (case processNode E c page (Some (node_id n)) s1 of
               (None, s2) \<Rightarrow> forEachItemChild E cs page (Some n) sibs s2
             | (Some p, s2) \<Rightarrow>
                 forEachItemChild E cs page (Some n) (sibs @ mainNode p # siblings p) s2)))"

text \<open>\<open>processListItem(node, page)\<close>: the pair is its \<open>{ node: newNode, siblings }\<close>.\<close>

definition processListItem ::
  "enum \<Rightarrow> AstNode \<Rightarrow> int \<Rightarrow> nat \<Rightarrow> (ProcessedNode option \<times> ProcessedNode list) \<times> nat" where
  "processListItem E node page s = forEachItemChild E (ast_children node) page None [] s"

definition processRootNode ::
  "enum \<Rightarrow> AstNode \<Rightarrow> int \<Rightarrow> nat option \<Rightarrow> nat \<Rightarrow> ProcessedNode list \<times> nat" where
  "processRootNode E node page parentId s =
     (case processNode E node page parentId s of
        (None, s') \<Rightarrow> ([], s')
      | (Some nodes, s') \<Rightarrow> (mainNode nodes # siblings nodes, s'))"

subsection \<open>markdownToJson\<close>

text \<open>
  The heading stack \<open>parentIdManager\<close> is an array whose top is its last element.
  \<open>topDepth\<close> is \<open>parentIdManager.at(-1)?.depth || 0\<close> and \<open>topId\<close> is
  \<open>parentIdManager.at(-1)?.id\<close>.
\<close>

definition topDepth :: "ParentId list \<Rightarrow> nat" where
  "topDepth stack = (if stack = [] then 0 else pid_depth (last stack))"

definition topId :: "ParentId list \<Rightarrow> nat option" where
  "topId stack = (if stack = [] then None else Some (pid_id (last stack)))"

text \<open>
  The \<open>for\<close> loop that pops, \<open>i\<close> counting down from the length of the stack: it pops
  once, then stops when the depth of the heading is above the depth of the new top.
\<close>

fun popLoop :: "nat \<Rightarrow> nat \<Rightarrow> ParentId list \<Rightarrow> ParentId list" where
  "popLoop 0 depth stack = stack"
| "popLoop (Suc i) depth stack =
     (if depth > topDepth (butlast stack) then butlast stack
      else popLoop i depth (butlast stack))"

definition popHeadings :: "AstNode \<Rightarrow> ParentId list \<Rightarrow> ParentId list" where
  "popHeadings sourceNode stack =
     (if ast_type sourceNode = MdNodeType_heading \<and> ast_depth sourceNode \<le> topDepth stack
      then popLoop (length stack) (ast_depth sourceNode) stack
      else stack)"

record FlattenState =
  parentIdManager :: "ParentId list"
  processedNodes :: "ProcessedNode list"
  nextId :: nat

text \<open>
  The body of the \<open>forEach\<close> over the top-level children. \<open>processedNode[0].id\<close> on an
  empty array is a TypeError: the result \<open>None\<close>.
\<close>

definition sourceNodeStep :: "enum \<Rightarrow> int \<Rightarrow> AstNode \<Rightarrow> FlattenState \<Rightarrow> FlattenState option" where
  "sourceNodeStep E page sourceNode st =
     (let stack = popHeadings sourceNode (parentIdManager st);
          (processedNode, s') = processRootNode E sourceNode page (topId stack) (nextId st)
      in if ast_type sourceNode = MdNodeType_heading then
           (case processedNode of
              [] \<Rightarrow> None
            | first # _ \<Rightarrow>
                Some \<lparr>parentIdManager =
                        stack @ [\<lparr>pid_id = node_id first, pid_depth = ast_depth sourceNode\<rparr>],
                      processedNodes = processedNodes st @ processedNode,
                      nextId = s'\<rparr>)
         else
           Some \<lparr>parentIdManager = stack,
                 processedNodes = processedNodes st @ processedNode,
                 nextId = s'\<rparr>)"

fun forEachSourceNode ::
  "enum \<Rightarrow> int \<Rightarrow> AstNode list \<Rightarrow> FlattenState \<Rightarrow> FlattenState option" where
  "forEachSourceNode E page [] st = Some st"
| "forEachSourceNode E page (sourceNode # rest) st =
     (case sourceNodeStep E page sourceNode st of
        None \<Rightarrow> None
      | Some st' \<Rightarrow> forEachSourceNode E page rest st')"

text \<open>
  \<open>markdownToJson\<close> from the parsed tree on: \<open>children\<close> is \<open>parsedMd.children\<close> and
  \<open>s\<close> the identifiers drawn before the call.
\<close>

definition markdownToJson ::
  "enum \<Rightarrow> AstNode list \<Rightarrow> int \<Rightarrow> nat \<Rightarrow> ProcessedNode list option" where
  "markdownToJson E children page s =
     map_option processedNodes
       (forEachSourceNode E page children
          \<lparr>parentIdManager = [], processedNodes = [], nextId = s\<rparr>)"

section \<open>Invariants of the flattening\<close>

text \<open>
  The siblings a call returns are the main nodes of the lists nested in list items.
  \<open>sibsOK E page a b sibs\<close>: every node of \<open>sibs\<close> drew its id in the call, between the
  supplies \<open>a\<close> and \<open>b\<close>, carries the page and the output type of the list kind, and has
  a \<open>parentId\<close> that was drawn in the call too and is the id of no node of \<open>sibs\<close>.
\<close>

definition sibsOK :: "enum \<Rightarrow> int \<Rightarrow> nat \<Rightarrow> nat \<Rightarrow> ProcessedNode list \<Rightarrow> bool" where
  "sibsOK E page a b sibs =
     (\<forall>x \<in> set sibs.
        a \<le> node_id x \<and> node_id x < b \<and> node_page x = Some page \<and>
        node_type x = convertedType E MdNodeType_list \<and>
        (\<exists>p. node_parentId x = Some p \<and> a \<le> p \<and> p < b \<and> (\<forall>y \<in> set sibs. node_id y \<noteq> p)))"

text \<open>
  What \<open>processNode\<close> returns from the supply \<open>s\<close>: nothing, and the supply as it was, or a
  main node with the last id drawn and siblings that are \<open>sibsOK\<close> below that id.
\<close>

definition processedOK :: "enum \<Rightarrow> int \<Rightarrow> nat \<Rightarrow> Processed option \<Rightarrow> nat \<Rightarrow> bool" where
  "processedOK E page s r s' =
     (case r of
        None \<Rightarrow> s' = s
      | Some p \<Rightarrow>
          s \<le> node_id (mainNode p) \<and> s' = Suc (node_id (mainNode p)) \<and>
          sibsOK E page s (node_id (mainNode p)) (siblings p))"

text \<open>The variable \<open>newNode\<close> of \<open>processListItem\<close>: its id is the id of no sibling.\<close>

definition itemOK :: "nat \<Rightarrow> nat \<Rightarrow> ProcessedNode option \<Rightarrow> ProcessedNode list \<Rightarrow> bool" where
  "itemOK a s newNode sibs =
     (case newNode of
        None \<Rightarrow> True
      | Some n \<Rightarrow> a \<le> node_id n \<and> node_id n < s \<and> (\<forall>y \<in> set sibs. node_id y \<noteq> node_id n))"

text \<open>
  The output sequence: a \<open>parentId\<close> is the id of a node emitted strictly earlier, or the
  node has the output type of the list kind and its \<open>parentId\<close> is the id of no node of
  the sequence.
\<close>

definition refsOK :: "enum \<Rightarrow> nat \<Rightarrow> ProcessedNode list \<Rightarrow> bool" where
  "refsOK E s out =
     (\<forall>k < length out. \<forall>p. node_parentId (out ! k) = Some p \<longrightarrow>
        p < s \<and>
        ((\<exists>j < k. node_id (out ! j) = p) \<or>
         (node_type (out ! k) = convertedType E MdNodeType_list \<and>
          (\<forall>x \<in> set out. node_id x \<noteq> p))))"

text \<open>The state of the loop of \<open>markdownToJson\<close>: the heading stack holds ids of emitted nodes.\<close>

definition flattenOK :: "enum \<Rightarrow> int \<Rightarrow> FlattenState \<Rightarrow> bool" where
  "flattenOK E page st =
     ((\<forall>x \<in> set (processedNodes st).
         node_id x < nextId st \<and> node_page x = Some page \<and>
         (\<exists>t. node_type x = convertedType E t)) \<and>
      (\<forall>e \<in> set (parentIdManager st). pid_id e \<in> node_id ` set (processedNodes st)) \<and>
      refsOK E (nextId st) (processedNodes st))"

text \<open>
  The group of nodes emitted for the top-level child \<open>i\<close>, with \<open>stack\<close> the heading
  stack before the first child: the main node has no \<open>parentId\<close>, or the id of an entry
  of \<open>stack\<close>, or the id of the main node of an earlier child that is a heading; every
  sibling has the output type of the list kind and a \<open>parentId\<close> that is the id of no
  node of \<open>out\<close>.
\<close>

definition groupOK ::
  "enum \<Rightarrow> ParentId list \<Rightarrow> AstNode list \<Rightarrow> ProcessedNode list list \<Rightarrow> ProcessedNode list
     \<Rightarrow> nat \<Rightarrow> bool" where
  "groupOK E stack cs groups out i =
     (\<forall>m sibs. groups ! i = m # sibs \<longrightarrow>
        (node_parentId m = None \<or>
         (\<exists>e \<in> set stack. node_parentId m = Some (pid_id e)) \<or>
         (\<exists>j < i. \<exists>h rest. ast_type (cs ! j) = MdNodeType_heading \<and>
             groups ! j = h # rest \<and> node_parentId m = Some (node_id h))) \<and>
        (\<forall>x \<in> set sibs. node_type x = convertedType E MdNodeType_list \<and>
           (\<exists>p. node_parentId x = Some p \<and> (\<forall>y \<in> set out. node_id y \<noteq> p))))"

subsection \<open>Parent validity as the specification words it\<close>

text \<open>
  The node at position \<open>k\<close> of an output sequence has no \<open>parentId\<close>, or its
  \<open>parentId\<close> is the id of a node at a position up to \<open>k\<close>.
\<close>

definition parentIdEmitted :: "ProcessedNode list \<Rightarrow> nat \<Rightarrow> bool" where
  "parentIdEmitted out k =
     (case node_parentId (out ! k) of
        None \<Rightarrow> True
      | Some p \<Rightarrow> p \<in> set (map node_id (take (Suc k) out)))"

definition parentIdsEmitted :: "ProcessedNode list \<Rightarrow> bool" where
  "parentIdsEmitted out = list_all (parentIdEmitted out) [0..<length out]"

section \<open>Example inputs\<close>

text \<open>Three rotations tie for the highest confidence.\<close>

definition ocrTie :: "nat \<Rightarrow> real" where
  "ocrTie r = (if r = 0 then 10 else 70)"

text \<open>
  An image 100 pixels wide, narrower than the 150 pixel column: the image library
  refuses the region.
\<close>

definition envCropFails :: "(unit, string) Collaborators" where
  "envCropFails =
     \<lparr>sharp_metadata = (\<lambda>b. Inr \<lparr>md_width = Some 100, md_height = Some 50\<rparr>),
      sharp_extract = (\<lambda>b r. Inl ''extract_area: bad extract area''),
      tesseract_recognize = (\<lambda>b. Inr 87)\<rparr>"

text \<open>An enum \<open>ConvertedNodeType\<close> with the members \<open>heading\<close>, \<open>list\<close> and \<open>text\<close>.\<close>

definition exampleEnum :: enum where
  "exampleEnum = [''heading'' \<mapsto> ''heading'', ''list'' \<mapsto> ''list'', ''text'' \<mapsto> ''text'']"

text \<open>Nodes as the parser builds them; a field the code does not read on a kind is 0 or empty.\<close>

definition textNode :: "string \<Rightarrow> AstNode" where
  "textNode s = AstNode MdNodeType_text 0 s []"

definition paragraphNode :: "AstNode list \<Rightarrow> AstNode" where
  "paragraphNode cs = AstNode ''paragraph'' 0 '''' cs"

definition listItemNode :: "AstNode list \<Rightarrow> AstNode" where
  "listItemNode cs = AstNode MdNodeType_listItem 0 '''' cs"

definition listNode :: "AstNode list \<Rightarrow> AstNode" where
  "listNode cs = AstNode MdNodeType_list 0 '''' cs"

definition headingNode :: "nat \<Rightarrow> string \<Rightarrow> AstNode" where
  "headingNode d s = AstNode MdNodeType_heading d '''' [textNode s]"

definition imageNode :: AstNode where
  "imageNode = AstNode MdNodeType_image 0 '''' []"

definition thematicBreakNode :: AstNode where
  "thematicBreakNode = AstNode MdNodeType_thematicBreak 0 '''' []"

text \<open>
  The tree of a list whose only item holds the paragraph \<open>a\<close> and a nested list with the
  item \<open>b\<close>, and the tree of a list whose only item starts with a nested list (the
  markdown \<open>- - b\<close>).
\<close>

definition nestedListPage :: "AstNode list" where
  "nestedListPage =
     [listNode [listItemNode [paragraphNode [textNode ''a''],
                              listNode [listItemNode [paragraphNode [textNode ''b'']]]]]]"

definition sublistFirstPage :: "AstNode list" where
  "sublistFirstPage =
     [listNode [listItemNode [listNode [listItemNode [paragraphNode [textNode ''b'']]]]]]"

text \<open>The nested list inside a block quote.\<close>

definition blockquoteListPage :: "AstNode list" where
  "blockquoteListPage = [AstNode ''blockquote'' 0 '''' nestedListPage]"

text \<open>The heading \<open>T\<close> followed by the nested list.\<close>

definition headingListPage :: "AstNode list" where
  "headingListPage = headingNode 1 ''T'' # nestedListPage"

section \<open>Orientation correction: the properties\<close>


lemma foldl_better_snoc: "foldl better x (xs @ [y]) = better (foldl better x xs) y"
  by simp

lemma foldl_better_first_max:
  "\<exists>i < length (x # xs). foldl better x xs = (x # xs) ! i \<and>
     (\<forall>j < length (x # xs). confidence ((x # xs) ! j) \<le> confidence ((x # xs) ! i)) \<and>
     (\<forall>j < i. confidence ((x # xs) ! j) < confidence ((x # xs) ! i))"
proof (induction xs rule: rev_induct)
  case Nil
  then show ?case by simp
next
  case (snoc y ys)
  then obtain i where i: "i < length (x # ys)" "foldl better x ys = (x # ys) ! i"
    and mx: "\<forall>j < length (x # ys). confidence ((x # ys) ! j) \<le> confidence ((x # ys) ! i)"
    and fst: "\<forall>j < i. confidence ((x # ys) ! j) < confidence ((x # ys) ! i)"
    by blast
  let ?zs = "x # ys @ [y]"
  have old: "\<And>j. j < length (x # ys) \<Longrightarrow> ?zs ! j = (x # ys) ! j"
    by (metis append_Cons nth_append)
  have new: "?zs ! length (x # ys) = y"
    by (metis append_Cons nth_append_length)
  show ?case
  proof (cases "confidence y > confidence ((x # ys) ! i)")
    case True
    have "foldl better x (ys @ [y]) = ?zs ! length (x # ys)"
      using True i(2) new by (simp add: better_def)
    moreover have "\<forall>j < length ?zs. confidence (?zs ! j) \<le> confidence (?zs ! length (x # ys))"
    proof (intro allI impI)
      fix j assume "j < length ?zs"
      then consider "j < length (x # ys)" | "j = length (x # ys)" by fastforce
      then show "confidence (?zs ! j) \<le> confidence (?zs ! length (x # ys))"
      proof cases
        case 1
        then show ?thesis using mx True old[OF 1] new by fastforce
      next
        case 2
        then show ?thesis by simp
      qed
    qed
    moreover have "\<forall>j < length (x # ys). confidence (?zs ! j) < confidence (?zs ! length (x # ys))"
    proof (intro allI impI)
      fix j assume j: "j < length (x # ys)"
      show "confidence (?zs ! j) < confidence (?zs ! length (x # ys))"
        using mx True old[OF j] new j by fastforce
    qed
    ultimately show ?thesis
      by (intro exI[of _ "length (x # ys)"]) simp
  next
    case False
    have "foldl better x (ys @ [y]) = ?zs ! i"
      using False i old[OF i(1)] by (simp add: better_def)
    moreover have "\<forall>j < length ?zs. confidence (?zs ! j) \<le> confidence (?zs ! i)"
    proof (intro allI impI)
      fix j assume "j < length ?zs"
      then consider "j < length (x # ys)" | "j = length (x # ys)" by fastforce
      then show "confidence (?zs ! j) \<le> confidence (?zs ! i)"
      proof cases
        case 1
        then show ?thesis using mx old[OF 1] old[OF i(1)] by simp
      next
        case 2
        then show ?thesis using False new old[OF i(1)] by simp
      qed
    qed
    moreover have "\<forall>j < i. confidence (?zs ! j) < confidence (?zs ! i)"
    proof (intro allI impI)
      fix j assume j: "j < i"
      then have "j < length (x # ys)" using i(1) by simp
      then show "confidence (?zs ! j) < confidence (?zs ! i)"
        using fst j old[of j] old[OF i(1)] by simp
    qed
    ultimately show ?thesis using i(1)
      by (intro exI[of _ i]) simp
  qed
qed

lemma trialResults_nth:
  "i < length rotations \<Longrightarrow>
     trialResults ocr ! i = \<lparr>rotation = rotations ! i, confidence = ocr (rotations ! i)\<rparr>"
  by (simp add: trialResults_def)

lemma length_trialResults: "length (trialResults ocr) = length rotations"
  by (simp add: trialResults_def)

lemma trialResults_Cons:
  "trialResults ocr = \<lparr>rotation = 0, confidence = ocr 0\<rparr> #
     map (\<lambda>r. \<lparr>rotation = r, confidence = ocr r\<rparr>) [90, 180, 270]"
  by (simp add: trialResults_def rotations_def)

text \<open>
  C5. When several trials tie for the highest confidence, the reduction of
  \<open>determineOptimalRotation\<close> selects the first of them in the order \<open>[0, 90, 180, 270]\<close>:
  the selected trial has the highest confidence, and every trial before it has a
  strictly lower one.
\<close>

theorem bestResult_first_maximum:
  "\<exists>i < length rotations.
     bestResult ocr = Some \<lparr>rotation = rotations ! i, confidence = ocr (rotations ! i)\<rparr> \<and>
     (\<forall>j < length rotations. ocr (rotations ! j) \<le> ocr (rotations ! i)) \<and>
     (\<forall>j < i. ocr (rotations ! j) < ocr (rotations ! i))"
proof -
  define x where "x = \<lparr>rotation = 0, confidence = ocr 0\<rparr>"
  define xs where "xs = map (\<lambda>r. \<lparr>rotation = r, confidence = ocr r\<rparr>) [90, 180, 270::nat]"
  have tr: "trialResults ocr = x # xs"
    by (simp add: trialResults_Cons x_def xs_def)
  have len: "length (x # xs) = length rotations"
    using length_trialResults[of ocr] tr by simp
  obtain i where i: "i < length (x # xs)" "foldl better x xs = (x # xs) ! i"
    and mx: "\<forall>j < length (x # xs). confidence ((x # xs) ! j) \<le> confidence ((x # xs) ! i)"
    and fst: "\<forall>j < i. confidence ((x # xs) ! j) < confidence ((x # xs) ! i)"
    using foldl_better_first_max[of x xs] by blast
  have nth: "\<And>j. j < length rotations \<Longrightarrow>
      (x # xs) ! j = \<lparr>rotation = rotations ! j, confidence = ocr (rotations ! j)\<rparr>"
    using trialResults_nth[of _ ocr] tr by simp
  have i': "i < length rotations" using i(1) len by simp
  have ci: "confidence ((x # xs) ! i) = ocr (rotations ! i)"
    using nth[OF i'] by simp
  have "bestResult ocr = Some \<lparr>rotation = rotations ! i, confidence = ocr (rotations ! i)\<rparr>"
    using i(2) nth[OF i'] tr by (simp add: bestResult_def)
  moreover have "\<forall>j < length rotations. ocr (rotations ! j) \<le> ocr (rotations ! i)"
    using mx nth nth[OF i'] len by simp
  moreover have "\<forall>j < i. ocr (rotations ! j) < ocr (rotations ! i)"
  proof (intro allI impI)
    fix j assume j: "j < i"
    then have jl: "j < length rotations" using i' by simp
    have cj: "confidence ((x # xs) ! j) = ocr (rotations ! j)"
      using nth[OF jl] by simp
    have "confidence ((x # xs) ! j) < confidence ((x # xs) ! i)"
      using fst j by blast
    then show "ocr (rotations ! j) < ocr (rotations ! i)"
      using cj ci by simp
  qed
  ultimately show ?thesis using i' by blast
qed


theorem bestResult_first_maximum_witness:
  "bestResult ocrTie = Some \<lparr>rotation = 90, confidence = 70\<rparr> \<and>
   ocrTie 90 = ocrTie 180 \<and> ocrTie 180 = ocrTie 270 \<and> ocrTie 0 < ocrTie 90"
proof -
  obtain i where i: "i < length rotations"
    and b: "bestResult ocrTie = Some \<lparr>rotation = rotations ! i, confidence = ocrTie (rotations ! i)\<rparr>"
    and mx: "\<forall>j < length rotations. ocrTie (rotations ! j) \<le> ocrTie (rotations ! i)"
    and fst: "\<forall>j < i. ocrTie (rotations ! j) < ocrTie (rotations ! i)"
    using bestResult_first_maximum[of ocrTie] by blast
  have "i = 0 \<or> i = 1 \<or> i = 2 \<or> i = 3"
    using i by (auto simp: rotations_def)
  moreover have "i \<noteq> 0"
  proof
    assume "i = 0"
    then show False using mx[rule_format, of 1] by (simp add: rotations_def ocrTie_def)
  qed
  moreover have "i \<noteq> 2"
  proof
    assume "i = 2"
    then show False using fst[rule_format, of 1] by (simp add: rotations_def ocrTie_def)
  qed
  moreover have "i \<noteq> 3"
  proof
    assume "i = 3"
    then show False using fst[rule_format, of 1] by (simp add: rotations_def ocrTie_def)
  qed
  ultimately have "i = 1" by blast
  then show ?thesis using b by (simp add: rotations_def ocrTie_def)
qed


text \<open>
  C6. \<open>getTextFromImage\<close> never throws: it returns for every buffer and every
  behaviour of the image library and the recogniser. When a call inside its \<open>try\<close>
  block throws, it returns the confidence 0 and logs what was thrown. The confidence it
  returns lies between 0 and 100 when the confidences the recogniser reports do.
\<close>

theorem getTextFromImage_never_throws:
  "(\<exists>c log. getTextFromImage env buffer = Inr (c, log) \<and>
      ((\<forall>b c'. tesseract_recognize env b = Inr c' \<longrightarrow> 0 \<le> c' \<and> c' \<le> 100)
         \<longrightarrow> 0 \<le> c \<and> c \<le> 100)) \<and>
   (\<forall>e. tryOcr env buffer = Inl e \<longrightarrow> getTextFromImage env buffer = Inr (0, [e]))"
proof -
  have fail: "\<forall>e. tryOcr env buffer = Inl e \<longrightarrow> getTextFromImage env buffer = Inr (0, [e])"
    by (simp add: getTextFromImage_def)
  have range: "0 \<le> c \<and> c \<le> 100"
    if "\<forall>b c'. tesseract_recognize env b = Inr c' \<longrightarrow> 0 \<le> c' \<and> c' \<le> 100"
      and "tryOcr env buffer = Inr c" for c
    using that by (auto simp: tryOcr_def split: sum.splits)
  show ?thesis
  proof (cases "tryOcr env buffer")
    case (Inl e)
    then show ?thesis using fail by (simp add: getTextFromImage_def)
  next
    case (Inr c)
    then show ?thesis using fail range[of c] by (simp add: getTextFromImage_def)
  qed
qed

theorem getTextFromImage_never_throws_witness:
  "tryOcr envCropFails () = Inl ''extract_area: bad extract area'' \<and>
   getTextFromImage envCropFails () = Inr (0, [''extract_area: bad extract area''])"
proof -
  have "tryOcr envCropFails () = Inl ''extract_area: bad extract area''"
    by (simp add: tryOcr_def envCropFails_def)
  then show ?thesis
    using getTextFromImage_never_throws[of envCropFails "()"] by blast
qed

section \<open>Tree flattening: the properties\<close>

subsection \<open>The dispatch\<close>

lemmas MdNodeType_defs =
  MdNodeType_break_def MdNodeType_code_def MdNodeType_definition_def MdNodeType_heading_def
  MdNodeType_html_def MdNodeType_image_def MdNodeType_imageReference_def
  MdNodeType_inlineCode_def MdNodeType_list_def MdNodeType_listItem_def MdNodeType_text_def
  MdNodeType_thematicBreak_def

lemma selectProcessor_ignored:
  "t \<in> set ignoreNodeTypes \<Longrightarrow> selectProcessor t = None"
  by (auto simp: selectProcessor_def ignoreNodeTypes_def literals_def nodeProcessors_def
      MdNodeType_defs)

lemma selectProcessor_text: "selectProcessor MdNodeType_text = Some P_literal"
  by (simp add: selectProcessor_def literals_def)

lemma selectProcessor_list: "selectProcessor MdNodeType_list = Some P_list"
  by (simp add: selectProcessor_def literals_def nodeProcessors_def MdNodeType_defs)

lemma selectProcessor_listItem: "selectProcessor MdNodeType_listItem = Some P_listItem"
  by (simp add: selectProcessor_def literals_def nodeProcessors_def MdNodeType_defs)

lemma selectProcessor_heading: "selectProcessor MdNodeType_heading = Some P_parent"
  by (simp add: selectProcessor_def literals_def nodeProcessors_def ignoreNodeTypes_def
      MdNodeType_defs)

lemma ignored_not_heading: "t \<in> set ignoreNodeTypes \<Longrightarrow> t \<noteq> MdNodeType_heading"
  by (auto simp: ignoreNodeTypes_def MdNodeType_defs)

lemma ignored_not_list: "t \<in> set ignoreNodeTypes \<Longrightarrow> t \<noteq> MdNodeType_list"
  by (auto simp: ignoreNodeTypes_def MdNodeType_defs)

lemma convertedType_text: "convertedType E MdNodeType_text = ConvertedNodeType_text E"
  by (simp add: convertedType_def ConvertedNodeType_text_def MdNodeType_text_def
      split: option.splits)

lemma convertedType_defined: "E ''text'' \<noteq> None \<Longrightarrow> convertedType E t \<noteq> None"
  by (auto simp: convertedType_def ConvertedNodeType_text_def split: option.splits)

lemma convertedType_unrecognized:
  "E t = None \<Longrightarrow> convertedType E t = ConvertedNodeType_text E"
  by (simp add: convertedType_def)

lemma processNode_ignored:
  "ast_type n \<in> set ignoreNodeTypes \<Longrightarrow> processNode E n page parentId s = (None, s)"
  by (cases n) (simp add: selectProcessor_ignored)

lemma processNode_selected:
  "selectProcessor (ast_type n) = Some proc \<Longrightarrow>
     \<exists>r s'. processNode E n page parentId s = (Some r, s')"
  by (cases n) (simp split: prod.splits)

lemma processNode_main:
  "processNode E n page parentId s = (Some r, s') \<Longrightarrow>
     node_id (mainNode r) < s' \<and> s' = Suc (node_id (mainNode r)) \<and>
     node_page (mainNode r) = Some page \<and>
     node_parentId (mainNode r) = parentId \<and>
     node_type (mainNode r) = convertedType E (ast_type n)"
  by (cases n) (auto split: option.splits prod.splits)

lemma processNode_listItem:
  "processNode E (AstNode MdNodeType_listItem d v cs) page parentId s =
     (let ((newNode, sibs), s') = forEachItemChild E cs page None [] s
      in (Some \<lparr>mainNode = ProcessedNode s' (Some page) parentId
                   (convertedType E MdNodeType_listItem)
                   (case newNode of None \<Rightarrow> VUndefined | Some n \<Rightarrow> VNode n),
                 siblings = sibs\<rparr>, Suc s'))"
  by (simp add: selectProcessor_listItem split: prod.splits)

lemma processNode_list:
  "processNode E (AstNode MdNodeType_list d v cs) page parentId s =
     (let (result, s') = mapProcessNode E cs page s
      in (Some \<lparr>mainNode = ProcessedNode s' (Some page) parentId
                   (convertedType E MdNodeType_list) (VArray (gatherValue result)),
                 siblings = gatherSiblings result\<rparr>, Suc s'))"
  by (simp add: selectProcessor_list split: prod.splits)

subsection \<open>Ignored kinds\<close>

lemma processRootNode_ignored:
  "ast_type n \<in> set ignoreNodeTypes \<Longrightarrow> processRootNode E n page parentId s = ([], s)"
  by (simp add: processRootNode_def processNode_ignored)

lemma sourceNodeStep_ignored:
  "ast_type n \<in> set ignoreNodeTypes \<Longrightarrow> sourceNodeStep E page n st = Some st"
  by (simp add: sourceNodeStep_def popHeadings_def processRootNode_ignored ignored_not_heading)

lemma forEachSourceNode_ignored:
  "\<forall>c \<in> set children. ast_type c \<in> set ignoreNodeTypes \<Longrightarrow>
     forEachSourceNode E page children st = Some st"
  by (induction children) (simp_all add: sourceNodeStep_ignored)

lemma forEachItemChild_ignored:
  "\<forall>c \<in> set cs. ast_type c \<in> set ignoreNodeTypes \<Longrightarrow>
     forEachItemChild E cs page newNode sibs s = ((newNode, sibs), s)"
  by (induction cs) (simp_all add: ignored_not_list processNode_ignored)

text \<open>
  C8. A node of an ignored kind (break, definition, image, image reference, thematic
  break) gives no node and no sibling, whatever is below it, and a page whose top-level
  children are all of ignored kinds flattens to the empty sequence.
\<close>

theorem ignored_kinds_dropped:
  "(ast_type n \<in> set ignoreNodeTypes \<longrightarrow>
      processNode E n page parentId s = (None, s) \<and>
      processRootNode E n page parentId s = ([], s)) \<and>
   ((\<forall>c \<in> set children. ast_type c \<in> set ignoreNodeTypes) \<longrightarrow>
      markdownToJson E children page s = Some [])"
  by (simp add: processNode_ignored processRootNode_ignored forEachSourceNode_ignored
      markdownToJson_def)

text \<open>The page of one image and one thematic break.\<close>

theorem ignored_kinds_dropped_witness:
  "ast_type imageNode = MdNodeType_image \<and> ast_type thematicBreakNode = MdNodeType_thematicBreak \<and>
   processNode exampleEnum imageNode 1 None 0 = (None, 0) \<and>
   markdownToJson exampleEnum [imageNode, thematicBreakNode] 1 0 = Some []"
proof -
  have "ast_type imageNode \<in> set ignoreNodeTypes"
    and "\<forall>c \<in> set [imageNode, thematicBreakNode]. ast_type c \<in> set ignoreNodeTypes"
    by (simp_all add: imageNode_def thematicBreakNode_def ignoreNodeTypes_def)
  then show ?thesis
    using ignored_kinds_dropped[of imageNode exampleEnum 1 None 0 "[imageNode, thematicBreakNode]"]
    by (simp add: imageNode_def thematicBreakNode_def)
qed

subsection \<open>List items\<close>

lemma processNode_listItem_ignored:
  "\<forall>c \<in> set cs. ast_type c \<in> set ignoreNodeTypes \<Longrightarrow>
     processNode E (AstNode MdNodeType_listItem d v cs) page parentId s =
       (Some \<lparr>mainNode = ProcessedNode s (Some page) parentId
                 (convertedType E MdNodeType_listItem) VUndefined,
               siblings = []\<rparr>, Suc s)"
  by (simp add: processNode_listItem forEachItemChild_ignored del: processNode.simps)

lemma gatherValue_Cons_Some:
  "gatherValue (Some p # rs) = node_value (mainNode p) # gatherValue rs"
  by (simp add: gatherValue_def)

lemma mapProcessNode_listItems:
  "\<forall>c \<in> set items. ast_type c = MdNodeType_listItem \<Longrightarrow>
   mapProcessNode E items page s = (rs, s') \<Longrightarrow>
     length (gatherValue rs) = length items \<and>
     (\<forall>i < length items.
        (\<forall>c \<in> set (ast_children (items ! i)). ast_type c \<in> set ignoreNodeTypes) \<longrightarrow>
        gatherValue rs ! i = VUndefined)"
proof (induction items arbitrary: s rs s')
  case Nil
  then show ?case by (simp add: gatherValue_def)
next
  case (Cons c cs)
  obtain d v ccs where c: "c = AstNode MdNodeType_listItem d v ccs"
    using Cons.prems(1) by (cases c) simp
  obtain p s1 where p: "processNode E c page None s = (Some p, s1)"
    using processNode_selected[of c P_listItem E page None s] c
    by (auto simp: selectProcessor_listItem)
  obtain rs1 s2 where rs1: "mapProcessNode E cs page s1 = (rs1, s2)" by fastforce
  have rs: "rs = Some p # rs1" using Cons.prems(2) p rs1 by simp
  have tl: "length (gatherValue rs1) = length cs \<and>
     (\<forall>i < length cs.
        (\<forall>c \<in> set (ast_children (cs ! i)). ast_type c \<in> set ignoreNodeTypes) \<longrightarrow>
        gatherValue rs1 ! i = VUndefined)"
    using Cons.IH[OF _ rs1] Cons.prems(1) by simp
  have hd: "(\<forall>c \<in> set ccs. ast_type c \<in> set ignoreNodeTypes) \<longrightarrow>
      node_value (mainNode p) = VUndefined"
    using p c processNode_listItem_ignored[of ccs E d v page None s] by auto
  show ?case
  proof (intro conjI allI impI)
    show "length (gatherValue rs) = length (c # cs)"
      using tl by (simp add: rs gatherValue_Cons_Some)
  next
    fix i
    assume i: "i < length (c # cs)"
      and ig: "\<forall>x \<in> set (ast_children ((c # cs) ! i)). ast_type x \<in> set ignoreNodeTypes"
    show "gatherValue rs ! i = VUndefined"
    proof (cases i)
      case 0
      then show ?thesis using hd ig c by (simp add: rs gatherValue_Cons_Some)
    next
      case (Suc j)
      then show ?thesis using tl i ig by (simp add: rs gatherValue_Cons_Some)
    qed
  qed
qed

text \<open>
  C10. \<open>processNode\<close> returns a result for every list item. When all children of the
  item are of ignored kinds the value of that result is \<open>undefined\<close>, and the value of a
  list whose children are list items has one entry for each item, in order, with
  \<open>undefined\<close> at the position of every such item.
\<close>

theorem listItem_never_dropped:
  "(\<exists>r s'. processNode E (AstNode MdNodeType_listItem d v cs) page parentId s = (Some r, s')) \<and>
   ((\<forall>c \<in> set cs. ast_type c \<in> set ignoreNodeTypes) \<longrightarrow>
      processNode E (AstNode MdNodeType_listItem d v cs) page parentId s =
        (Some \<lparr>mainNode = ProcessedNode s (Some page) parentId
                  (convertedType E MdNodeType_listItem) VUndefined,
                siblings = []\<rparr>, Suc s)) \<and>
   ((\<forall>c \<in> set items. ast_type c = MdNodeType_listItem) \<longrightarrow>
      (\<exists>r s' vs. processNode E (AstNode MdNodeType_list d' v' items) page parentId s = (Some r, s') \<and>
         node_value (mainNode r) = VArray vs \<and> length vs = length items \<and>
         (\<forall>i < length items.
            (\<forall>c \<in> set (ast_children (items ! i)). ast_type c \<in> set ignoreNodeTypes) \<longrightarrow>
            vs ! i = VUndefined)))"
proof (intro conjI impI)
  show "\<exists>r s'. processNode E (AstNode MdNodeType_listItem d v cs) page parentId s = (Some r, s')"
    using processNode_selected[of "AstNode MdNodeType_listItem d v cs" P_listItem E page parentId s]
    by (simp add: selectProcessor_listItem)
next
  assume "\<forall>c \<in> set cs. ast_type c \<in> set ignoreNodeTypes"
  then show "processNode E (AstNode MdNodeType_listItem d v cs) page parentId s =
        (Some \<lparr>mainNode = ProcessedNode s (Some page) parentId
                  (convertedType E MdNodeType_listItem) VUndefined,
                siblings = []\<rparr>, Suc s)"
    by (rule processNode_listItem_ignored)
next
  assume items: "\<forall>c \<in> set items. ast_type c = MdNodeType_listItem"
  obtain rs s1 where rs: "mapProcessNode E items page s = (rs, s1)" by fastforce
  have "processNode E (AstNode MdNodeType_list d' v' items) page parentId s =
      (Some \<lparr>mainNode = ProcessedNode s1 (Some page) parentId
                (convertedType E MdNodeType_list) (VArray (gatherValue rs)),
              siblings = gatherSiblings rs\<rparr>, Suc s1)"
    using rs by (simp add: processNode_list del: processNode.simps)
  then show "\<exists>r s' vs. processNode E (AstNode MdNodeType_list d' v' items) page parentId s = (Some r, s') \<and>
         node_value (mainNode r) = VArray vs \<and> length vs = length items \<and>
         (\<forall>i < length items.
            (\<forall>c \<in> set (ast_children (items ! i)). ast_type c \<in> set ignoreNodeTypes) \<longrightarrow>
            vs ! i = VUndefined)"
    using mapProcessNode_listItems[OF items rs] by simp
qed

text \<open>A list of two items, the first holding only an image.\<close>

theorem listItem_never_dropped_witness:
  "\<exists>r s' vs. processNode exampleEnum
       (listNode [listItemNode [imageNode], listItemNode [paragraphNode [textNode ''x'']]])
       1 None 0 = (Some r, s') \<and>
     node_value (mainNode r) = VArray vs \<and> length vs = 2 \<and> vs ! 0 = VUndefined"
proof -
  let ?items = "[listItemNode [imageNode], listItemNode [paragraphNode [textNode ''x'']]]"
  have items: "\<forall>c \<in> set ?items. ast_type c = MdNodeType_listItem"
    by (simp add: listItemNode_def)
  obtain r s' vs where r: "processNode exampleEnum (AstNode MdNodeType_list 0 '''' ?items)
        1 None 0 = (Some r, s')"
    and vs: "node_value (mainNode r) = VArray vs" "length vs = length ?items"
    and un: "\<forall>i < length ?items.
        (\<forall>c \<in> set (ast_children (?items ! i)). ast_type c \<in> set ignoreNodeTypes) \<longrightarrow>
        vs ! i = VUndefined"
    using listItem_never_dropped[of exampleEnum 0 "''''" "[]" 1 None 0 ?items 0 "''''"] items
    by blast
  have "\<forall>c \<in> set (ast_children (?items ! 0)). ast_type c \<in> set ignoreNodeTypes"
    by (simp add: listItemNode_def imageNode_def ignoreNodeTypes_def)
  then have "vs ! 0 = VUndefined" using un by simp
  then show ?thesis using r vs by (auto simp: listNode_def)
qed

text \<open>
  C7. For the list item with the children \<open>text a\<close> and a list of one item \<open>text b\<close>,
  \<open>processListItem\<close> returns two nodes: the main node, of type text, with the value
  \<open>a\<close> and no \<open>parentId\<close>, and one sibling, the node of the nested list, whose value
  holds the node of \<open>b\<close> and whose \<open>parentId\<close> is the id of the main node. \<open>processNode\<close>
  wraps the main node as the value of the node it returns for the item and passes the
  sibling on.
\<close>

theorem list_item_with_sublist:
  "processListItem E (listItemNode [textNode ''a'', listNode [listItemNode [textNode ''b'']]])
       page s =
     ((Some (ProcessedNode s (Some page) None (ConvertedNodeType_text E) (VString ''a'')),
       [ProcessedNode (s + 3) (Some page) (Some s) (convertedType E MdNodeType_list)
          (VArray [VNode (ProcessedNode (s + 1) (Some page) None (ConvertedNodeType_text E)
                            (VString ''b''))])]),
      s + 4) \<and>
   processNode E (listItemNode [textNode ''a'', listNode [listItemNode [textNode ''b'']]])
       page parentId s =
     (Some \<lparr>mainNode = ProcessedNode (s + 4) (Some page) parentId
               (convertedType E MdNodeType_listItem)
               (VNode (ProcessedNode s (Some page) None (ConvertedNodeType_text E) (VString ''a''))),
             siblings =
               [ProcessedNode (s + 3) (Some page) (Some s) (convertedType E MdNodeType_list)
                  (VArray [VNode (ProcessedNode (s + 1) (Some page) None (ConvertedNodeType_text E)
                                    (VString ''b''))])]\<rparr>,
      s + 5)"
proof -
  have item: "processListItem E
       (listItemNode [textNode ''a'', listNode [listItemNode [textNode ''b'']]]) page s =
     ((Some (ProcessedNode s (Some page) None (ConvertedNodeType_text E) (VString ''a'')),
       [ProcessedNode (s + 3) (Some page) (Some s) (convertedType E MdNodeType_list)
          (VArray [VNode (ProcessedNode (s + 1) (Some page) None (ConvertedNodeType_text E)
                            (VString ''b''))])]),
      s + 4)"
    by (simp add: processListItem_def listItemNode_def textNode_def listNode_def
        convertedType_text[unfolded MdNodeType_text_def]
        selectProcessor_def literals_def nodeProcessors_def ignoreNodeTypes_def
        gatherValue_def gatherSiblings_def MdNodeType_defs)
  then have "forEachItemChild E [textNode ''a'', listNode [listItemNode [textNode ''b'']]]
       page None [] s =
     ((Some (ProcessedNode s (Some page) None (ConvertedNodeType_text E) (VString ''a'')),
       [ProcessedNode (s + 3) (Some page) (Some s) (convertedType E MdNodeType_list)
          (VArray [VNode (ProcessedNode (s + 1) (Some page) None (ConvertedNodeType_text E)
                            (VString ''b''))])]),
      s + 4)"
    by (simp add: processListItem_def listItemNode_def)
  then show ?thesis
    using item by (simp add: listItemNode_def processNode_listItem del: processNode.simps)
qed

text \<open>
  C3. On the page of a list whose item starts with a nested list, the placeholder that
  \<open>processListItem\<close> builds for the item (the node with the id 0, in the value of the
  first node of the output) has no \<open>page\<close>; the other nodes carry the page 7 of the call.
\<close>

theorem placeholder_without_page:
  "markdownToJson exampleEnum sublistFirstPage 7 0 =
     Some [ProcessedNode 6 (Some 7) None (Some ''list'')
             (VArray [VNode (ProcessedNode 0 None None (Some ''text'') (VString ''''))]),
           ProcessedNode 4 (Some 7) (Some 0) (Some ''list'')
             (VArray [VNode (ProcessedNode 2 (Some 7) None (Some ''text'') (VString ''b''))])] \<and>
   processListItem exampleEnum
       (listItemNode [listNode [listItemNode [paragraphNode [textNode ''b'']]]]) 7 0 =
     ((Some (ProcessedNode 0 None None (Some ''text'') (VString '''')),
       [ProcessedNode 4 (Some 7) (Some 0) (Some ''list'')
          (VArray [VNode (ProcessedNode 2 (Some 7) None (Some ''text'') (VString ''b''))])]),
      5) \<and>
   node_page (ProcessedNode 0 None None (Some ''text'') (VString '''')) = None"
  by code_simp

subsection \<open>Identifiers and parent references\<close>

lemma gatherSiblings_foldl:
  "foldl (\<lambda>acc r. case r of Some p \<Rightarrow> acc @ siblings p | None \<Rightarrow> acc) acc rs =
     acc @ gatherSiblings rs"
proof (induction rs arbitrary: acc)
  case Nil
  then show ?case by (simp add: gatherSiblings_def)
next
  case (Cons r rs)
  show ?case
    using Cons.IH[of "case r of Some p \<Rightarrow> acc @ siblings p | None \<Rightarrow> acc"]
      Cons.IH[of "case r of Some p \<Rightarrow> siblings p | None \<Rightarrow> []"]
    by (cases r) (simp_all add: gatherSiblings_def)
qed

lemma gatherSiblings_Nil: "gatherSiblings [] = []"
  by (simp add: gatherSiblings_def)

lemma gatherSiblings_Cons:
  "gatherSiblings (r # rs) = (case r of Some p \<Rightarrow> siblings p | None \<Rightarrow> []) @ gatherSiblings rs"
  using gatherSiblings_foldl[of "case r of Some p \<Rightarrow> siblings p | None \<Rightarrow> []" rs]
  by (cases r) (simp_all add: gatherSiblings_def)

lemma sibsOK_Nil: "sibsOK E page a b []"
  by (simp add: sibsOK_def)

lemma sibsOK_widen: "sibsOK E page a b sibs \<Longrightarrow> b \<le> c \<Longrightarrow> sibsOK E page a c sibs"
  unfolding sibsOK_def by fastforce

lemma sibsOK_ids: "sibsOK E page a b sibs \<Longrightarrow> y \<in> set sibs \<Longrightarrow> a \<le> node_id y \<and> node_id y < b"
  unfolding sibsOK_def by blast

lemma sibsOK_append:
  assumes "sibsOK E page a b xs" and "sibsOK E page b c ys" and "a \<le> b" and "b \<le> c"
  shows "sibsOK E page a c (xs @ ys)"
  unfolding sibsOK_def
proof (intro ballI)
  fix x assume "x \<in> set (xs @ ys)"
  then consider "x \<in> set xs" | "x \<in> set ys" by auto
  then show "a \<le> node_id x \<and> node_id x < c \<and> node_page x = Some page \<and>
        node_type x = convertedType E MdNodeType_list \<and>
        (\<exists>p. node_parentId x = Some p \<and> a \<le> p \<and> p < c \<and>
           (\<forall>y \<in> set (xs @ ys). node_id y \<noteq> p))"
  proof cases
    case 1
    then obtain p where p: "node_parentId x = Some p" "a \<le> p" "p < b"
        "\<forall>y \<in> set xs. node_id y \<noteq> p"
      and x: "a \<le> node_id x" "node_id x < b" "node_page x = Some page"
        "node_type x = convertedType E MdNodeType_list"
      using assms(1) unfolding sibsOK_def by blast
    have "\<forall>y \<in> set ys. node_id y \<noteq> p"
      using assms(2) p(3) unfolding sibsOK_def by fastforce
    then show ?thesis using p x assms(4) by auto
  next
    case 2
    then obtain p where p: "node_parentId x = Some p" "b \<le> p" "p < c"
        "\<forall>y \<in> set ys. node_id y \<noteq> p"
      and x: "b \<le> node_id x" "node_id x < c" "node_page x = Some page"
        "node_type x = convertedType E MdNodeType_list"
      using assms(2) unfolding sibsOK_def by blast
    have "\<forall>y \<in> set xs. node_id y \<noteq> p"
      using assms(1) p(2) unfolding sibsOK_def by fastforce
    then show ?thesis using p x assms(3) by auto
  qed
qed

lemma sibsOK_push_list:
  assumes sibs: "sibsOK E page a s sibs"
    and q: "a \<le> q" "q < s1" "\<forall>y \<in> set sibs. node_id y \<noteq> q"
    and le: "s \<le> s1" "s1 \<le> i"
    and m: "node_id m = i" "node_page m = Some page"
      "node_type m = convertedType E MdNodeType_list" "node_parentId m = Some q"
    and sp: "sibsOK E page s1 i sp"
  shows "sibsOK E page a (Suc i) (sibs @ m # sp)"
  unfolding sibsOK_def
proof (intro ballI)
  fix x assume "x \<in> set (sibs @ m # sp)"
  then consider "x \<in> set sibs" | "x = m" | "x \<in> set sp" by auto
  then show "a \<le> node_id x \<and> node_id x < Suc i \<and> node_page x = Some page \<and>
        node_type x = convertedType E MdNodeType_list \<and>
        (\<exists>p. node_parentId x = Some p \<and> a \<le> p \<and> p < Suc i \<and>
           (\<forall>y \<in> set (sibs @ m # sp). node_id y \<noteq> p))"
  proof cases
    case 1
    then obtain p where p: "node_parentId x = Some p" "a \<le> p" "p < s"
        "\<forall>y \<in> set sibs. node_id y \<noteq> p"
      and x: "a \<le> node_id x" "node_id x < s" "node_page x = Some page"
        "node_type x = convertedType E MdNodeType_list"
      using sibs unfolding sibsOK_def by blast
    have "\<forall>y \<in> set sp. node_id y \<noteq> p"
      using sp p(3) le(1) unfolding sibsOK_def by fastforce
    moreover have "node_id m \<noteq> p" using m(1) p(3) le by simp
    ultimately show ?thesis using p x le by auto
  next
    case 2
    have "\<forall>y \<in> set sp. node_id y \<noteq> q"
      using sp q(2) unfolding sibsOK_def by fastforce
    moreover have "a \<le> i" using q le by simp
    ultimately show ?thesis using 2 m q le by auto
  next
    case 3
    then obtain p where p: "node_parentId x = Some p" "s1 \<le> p" "p < i"
        "\<forall>y \<in> set sp. node_id y \<noteq> p"
      and x: "s1 \<le> node_id x" "node_id x < i" "node_page x = Some page"
        "node_type x = convertedType E MdNodeType_list"
      using sp unfolding sibsOK_def by blast
    have "\<forall>y \<in> set sibs. node_id y \<noteq> p"
      using sibs p(2) le(1) unfolding sibsOK_def by fastforce
    moreover have "node_id m \<noteq> p" using m(1) p(3) by simp
    moreover have "a \<le> p" "a \<le> node_id x" using q p(2) x(1) by simp_all
    ultimately show ?thesis using p x by auto
  qed
qed

lemma mapProcessNode_ok:
  assumes "\<forall>c \<in> set cs. \<forall>parentId s r s'.
             processNode E c page parentId s = (r, s') \<longrightarrow> processedOK E page s r s'"
  shows "mapProcessNode E cs page s = (rs, s') \<Longrightarrow>
         s \<le> s' \<and> sibsOK E page s s' (gatherSiblings rs)"
  using assms
proof (induction cs arbitrary: s rs s')
  case Nil
  then show ?case by (simp add: gatherSiblings_Nil sibsOK_Nil)
next
  case (Cons c cs)
  obtain r s1 where r: "processNode E c page None s = (r, s1)" by fastforce
  obtain rs1 s2 where rs1: "mapProcessNode E cs page s1 = (rs1, s2)" by fastforce
  have rs: "rs = r # rs1" and s': "s' = s2" using Cons.prems(1) r rs1 by simp_all
  have ok: "processedOK E page s r s1" using Cons.prems(2) r by simp
  have tl: "s1 \<le> s2 \<and> sibsOK E page s1 s2 (gatherSiblings rs1)"
    using Cons.IH[OF rs1] Cons.prems(2) by simp
  show ?case
  proof (cases r)
    case None
    then show ?thesis using ok tl by (simp add: rs s' gatherSiblings_Cons processedOK_def)
  next
    case (Some p)
    have p: "s \<le> node_id (mainNode p)" "s1 = Suc (node_id (mainNode p))"
      "sibsOK E page s (node_id (mainNode p)) (siblings p)"
      using ok Some by (simp_all add: processedOK_def)
    have "sibsOK E page s s1 (siblings p)"
      using sibsOK_widen[OF p(3), of s1] p(2) by simp
    then have "sibsOK E page s s2 (siblings p @ gatherSiblings rs1)"
      using sibsOK_append[of E page s s1 "siblings p" s2 "gatherSiblings rs1"] tl p by simp
    then show ?thesis using tl p by (simp add: rs s' Some gatherSiblings_Cons)
  qed
qed

lemma forEachItemChild_ok:
  assumes "\<forall>c \<in> set cs. \<forall>parentId s r s'.
             processNode E c page parentId s = (r, s') \<longrightarrow> processedOK E page s r s'"
  shows "forEachItemChild E cs page newNode sibs s = ((newNode', sibs'), s') \<Longrightarrow>
         a \<le> s \<Longrightarrow> sibsOK E page a s sibs \<Longrightarrow> itemOK a s newNode sibs \<Longrightarrow>
         s \<le> s' \<and> sibsOK E page a s' sibs' \<and> itemOK a s' newNode' sibs'"
  using assms
proof (induction cs arbitrary: newNode sibs s)
  case Nil
  then show ?case by simp
next
  case (Cons c cs)
  have IH: "\<And>newNode sibs s.
      forEachItemChild E cs page newNode sibs s = ((newNode', sibs'), s') \<Longrightarrow>
      a \<le> s \<Longrightarrow> sibsOK E page a s sibs \<Longrightarrow> itemOK a s newNode sibs \<Longrightarrow>
      s \<le> s' \<and> sibsOK E page a s' sibs' \<and> itemOK a s' newNode' sibs'"
    using Cons.IH Cons.prems(5) by simp
  have ok: "\<And>parentId s r s'. processNode E c page parentId s = (r, s')
      \<Longrightarrow> processedOK E page s r s'"
    using Cons.prems(5) by simp
  note run = Cons.prems(1)
  note as = Cons.prems(2)
  note sibs = Cons.prems(3)
  note item = Cons.prems(4)
  show ?case
  proof (cases "ast_type c \<noteq> MdNodeType_list")
    case True
    obtain r s1 where r: "processNode E c page None s = (r, s1)" by fastforce
    show ?thesis
    proof (cases r)
      case None
      have "s1 = s" using ok[OF r] None by (simp add: processedOK_def)
      then show ?thesis using run True r None IH[OF _ as sibs item] by simp
    next
      case (Some p)
      define m where "m = mainNode p"
      have p: "s \<le> node_id m" "s1 = Suc (node_id m)" "sibsOK E page s (node_id m) (siblings p)"
        using ok[OF r] Some by (simp_all add: processedOK_def m_def)
      define nn1 where "nn1 = (case newNode of
          Some n \<Rightarrow> Some (ProcessedNode (node_id n) (node_page n) (node_parentId n) (node_type n)
                      (jsPlus (node_value n) (node_value m)))
        | None \<Rightarrow> Some m)"
      have next_run: "forEachItemChild E cs page nn1 (sibs @ siblings p) s1 = ((newNode', sibs'), s')"
        unfolding nn1_def m_def using run True r Some by simp
      have w: "sibsOK E page s s1 (siblings p)"
        using sibsOK_widen[OF p(3), of s1] p(2) by simp
      have sibs1: "sibsOK E page a s1 (sibs @ siblings p)"
        using sibsOK_append[OF sibs w as] p by simp
      have item1: "itemOK a s1 nn1 (sibs @ siblings p)"
      proof (cases newNode)
        case None
        have "\<forall>y \<in> set sibs. node_id y \<noteq> node_id m"
          using sibsOK_ids[OF sibs] p(1) by fastforce
        moreover have "\<forall>y \<in> set (siblings p). node_id y \<noteq> node_id m"
          using sibsOK_ids[OF p(3)] by fastforce
        ultimately show ?thesis using None p as by (auto simp: itemOK_def nn1_def)
      next
        case (Some n)
        have n: "a \<le> node_id n" "node_id n < s" "\<forall>y \<in> set sibs. node_id y \<noteq> node_id n"
          using item Some by (simp_all add: itemOK_def)
        have "\<forall>y \<in> set (siblings p). node_id y \<noteq> node_id n"
          using sibsOK_ids[OF p(3)] n(2) by fastforce
        then show ?thesis using Some n p by (auto simp: itemOK_def nn1_def)
      qed
      have "a \<le> s1" using as p by simp
      then have "s1 \<le> s' \<and> sibsOK E page a s' sibs' \<and> itemOK a s' newNode' sibs'"
        using IH[OF next_run _ sibs1 item1] by simp
      then show ?thesis using p by simp
    qed
  next
    case False
    define ns where "ns = (case newNode of
        Some n \<Rightarrow> (n, s)
      | None \<Rightarrow> (ProcessedNode s None None (ConvertedNodeType_text E) (VString ''''), Suc s))"
    obtain n s1 where n: "ns = (n, s1)" by fastforce
    have nfacts: "a \<le> node_id n" "node_id n < s1" "s \<le> s1"
        "\<forall>y \<in> set sibs. node_id y \<noteq> node_id n" "s \<le> node_id n \<or> s1 = s"
    proof -
      show "a \<le> node_id n" "node_id n < s1" "s \<le> s1" "s \<le> node_id n \<or> s1 = s"
        using n item as by (auto simp: ns_def itemOK_def split: option.splits)
      show "\<forall>y \<in> set sibs. node_id y \<noteq> node_id n"
      proof (cases newNode)
        case None
        then have "node_id n = s" using n by (auto simp: ns_def)
        then show ?thesis using sibsOK_ids[OF sibs] by fastforce
      next
        case (Some n')
        then show ?thesis using n item by (auto simp: ns_def itemOK_def)
      qed
    qed
    obtain r s2 where r: "processNode E c page (Some (node_id n)) s1 = (r, s2)" by fastforce
    show ?thesis
    proof (cases r)
      case None
      have s2: "s2 = s1" using ok[OF r] None by (simp add: processedOK_def)
      have next_run: "forEachItemChild E cs page (Some n) sibs s1 = ((newNode', sibs'), s')"
        using run False r None n s2 by (simp add: ns_def)
      have "sibsOK E page a s1 sibs" using sibsOK_widen[OF sibs nfacts(3)] .
      moreover have "itemOK a s1 (Some n) sibs" using nfacts by (simp add: itemOK_def)
      moreover have "a \<le> s1" using as nfacts(3) by simp
      ultimately have "s1 \<le> s' \<and> sibsOK E page a s' sibs' \<and> itemOK a s' newNode' sibs'"
        using IH[OF next_run] by simp
      then show ?thesis using nfacts(3) by simp
    next
      case (Some p)
      define m where "m = mainNode p"
      have p: "s1 \<le> node_id m" "s2 = Suc (node_id m)" "sibsOK E page s1 (node_id m) (siblings p)"
        using ok[OF r] Some by (simp_all add: processedOK_def m_def)
      have mf: "node_page m = Some page" "node_parentId m = Some (node_id n)"
        "node_type m = convertedType E MdNodeType_list"
        using processNode_main[of E c page "Some (node_id n)" s1 p s2] r Some False
        by (simp_all add: m_def)
      have next_run: "forEachItemChild E cs page (Some n) (sibs @ m # siblings p) s2
          = ((newNode', sibs'), s')"
        unfolding m_def using run False r Some n by (simp add: ns_def)
      have sibs1: "sibsOK E page a s2 (sibs @ m # siblings p)"
        using sibsOK_push_list[OF sibs nfacts(1) nfacts(2) nfacts(4) nfacts(3) p(1) refl mf(1) mf(3) mf(2) p(3)]
          p(2) by simp
      have "\<forall>y \<in> set (siblings p). node_id y \<noteq> node_id n"
        using sibsOK_ids[OF p(3)] nfacts(2) by fastforce
      then have item1: "itemOK a s2 (Some n) (sibs @ m # siblings p)"
        using nfacts p by (auto simp: itemOK_def)
      have "a \<le> s2" using as nfacts(3) p by simp
      then have "s2 \<le> s' \<and> sibsOK E page a s' sibs' \<and> itemOK a s' newNode' sibs'"
        using IH[OF next_run _ sibs1 item1] by simp
      then show ?thesis using nfacts(3) p by simp
    qed
  qed
qed

lemma processNode_ok:
  "processNode E n page parentId s = (r, s') \<Longrightarrow> processedOK E page s r s'"
proof (induction n arbitrary: parentId s r s')
  case (AstNode t d v cs)
  have IH: "\<forall>c \<in> set cs. \<forall>parentId s r s'.
             processNode E c page parentId s = (r, s') \<longrightarrow> processedOK E page s r s'"
    using AstNode.IH by blast
  show ?case
  proof (cases "selectProcessor t")
    case None
    then show ?thesis using AstNode.prems by (simp add: processedOK_def)
  next
    case (Some proc)
    show ?thesis
    proof (cases proc)
      case P_literal
      then show ?thesis using AstNode.prems Some by (auto simp: processedOK_def sibsOK_Nil)
    next
      case P_list
      obtain rs s1 where rs: "mapProcessNode E cs page s = (rs, s1)" by fastforce
      have "s \<le> s1 \<and> sibsOK E page s s1 (gatherSiblings rs)"
        using mapProcessNode_ok[OF IH rs] .
      then show ?thesis using AstNode.prems Some P_list rs by (auto simp: processedOK_def)
    next
      case P_listItem
      obtain nn sibs s1 where fe: "forEachItemChild E cs page None [] s = ((nn, sibs), s1)"
        by (metis surj_pair)
      have "s \<le> s1 \<and> sibsOK E page s s1 sibs \<and> itemOK s s1 nn sibs"
        using forEachItemChild_ok[OF IH fe, of s] by (simp add: sibsOK_Nil itemOK_def)
      then show ?thesis using AstNode.prems Some P_listItem fe by (auto simp: processedOK_def)
    next
      case P_parent
      obtain rs s1 where rs: "mapProcessNode E cs page s = (rs, s1)" by fastforce
      have "s \<le> s1 \<and> sibsOK E page s s1 (gatherSiblings rs)"
        using mapProcessNode_ok[OF IH rs] .
      then show ?thesis using AstNode.prems Some P_parent rs by (auto simp: processedOK_def)
    qed
  qed
qed

lemma set_popLoop: "set (popLoop i d stack) \<subseteq> set stack"
proof (induction i arbitrary: stack)
  case 0
  then show ?case by simp
next
  case (Suc i)
  have "set (butlast stack) \<subseteq> set stack" by (auto dest: in_set_butlastD)
  then show ?case using Suc[of "butlast stack"] by auto
qed

lemma set_popHeadings: "set (popHeadings n stack) \<subseteq> set stack"
  using set_popLoop by (simp add: popHeadings_def)

lemma topId_in_stack: "topId stack = Some q \<Longrightarrow> \<exists>e \<in> set stack. pid_id e = q"
  by (auto simp: topId_def split: if_splits)

lemma refsOK_append:
  assumes old: "refsOK E s out" and ids: "\<forall>x \<in> set out. node_id x < s"
    and par: "node_parentId m = None \<or> (\<exists>q \<in> node_id ` set out. node_parentId m = Some q)"
    and m: "s \<le> node_id m"
    and sibs: "sibsOK E page s (node_id m) sibs"
  shows "refsOK E (Suc (node_id m)) (out @ m # sibs)"
  unfolding refsOK_def
proof (intro allI impI)
  fix k p
  let ?out = "out @ m # sibs"
  assume k: "k < length ?out" and p: "node_parentId (?out ! k) = Some p"
  have new_ids: "\<forall>x \<in> set (m # sibs). s \<le> node_id x"
    using m sibsOK_ids[OF sibs] by auto
  consider "k < length out" | "k = length out" | "length out < k" by linarith
  then show "p < Suc (node_id m) \<and>
        ((\<exists>j < k. node_id (?out ! j) = p) \<or>
         (node_type (?out ! k) = convertedType E MdNodeType_list \<and>
          (\<forall>x \<in> set ?out. node_id x \<noteq> p)))"
  proof cases
    case 1
    then have eq: "?out ! k = out ! k" by (simp add: nth_append)
    have o: "p < s \<and> ((\<exists>j < k. node_id (out ! j) = p) \<or>
         (node_type (out ! k) = convertedType E MdNodeType_list \<and>
          (\<forall>x \<in> set out. node_id x \<noteq> p)))"
      using old 1 p eq unfolding refsOK_def by simp
    have pre: "\<And>j. j < k \<Longrightarrow> ?out ! j = out ! j" using 1 by (simp add: nth_append)
    have fresh: "\<forall>x \<in> set (m # sibs). node_id x \<noteq> p" using new_ids o by fastforce
    show ?thesis
    proof (cases "\<exists>j < k. node_id (out ! j) = p")
      case True
      then show ?thesis using o pre m by auto
    next
      case False
      then have "node_type (out ! k) = convertedType E MdNodeType_list"
        and "\<forall>x \<in> set out. node_id x \<noteq> p" using o by blast+
      then show ?thesis using o m eq fresh by auto
    qed
  next
    case 2
    then have eq: "?out ! k = m" by simp
    then obtain q where q: "q \<in> node_id ` set out" "node_parentId m = Some q"
      using par p by auto
    then have pq: "p = q" using p eq by simp
    obtain j where j: "j < length out" "node_id (out ! j) = q"
      using q(1) by (auto simp: in_set_conv_nth)
    have "?out ! j = out ! j" using j(1) by (simp add: nth_append)
    moreover have "q < s" using ids j nth_mem by fastforce
    ultimately show ?thesis using j 2 pq m by auto
  next
    case 3
    define i where "i = k - Suc (length out)"
    have i: "i < length sibs" and eq: "?out ! k = sibs ! i"
      using 3 k by (simp_all add: i_def nth_append)
    have x: "sibs ! i \<in> set sibs" using i by simp
    obtain q where q: "node_parentId (sibs ! i) = Some q" "s \<le> q" "q < node_id m"
        "\<forall>y \<in> set sibs. node_id y \<noteq> q"
      and ty: "node_type (sibs ! i) = convertedType E MdNodeType_list"
      using sibs x unfolding sibsOK_def by blast
    have pq: "p = q" using p eq q(1) by simp
    have "\<forall>x \<in> set out. node_id x \<noteq> q" using ids q(2) by fastforce
    then have "\<forall>x \<in> set ?out. node_id x \<noteq> q" using q by auto
    then show ?thesis using pq q ty eq by auto
  qed
qed

lemma sourceNodeStep_ok:
  assumes inv: "flattenOK E page st"
  shows "\<exists>st'. sourceNodeStep E page n st = Some st' \<and> flattenOK E page st'"
proof -
  define stack where "stack = popHeadings n (parentIdManager st)"
  obtain r s1 where r: "processNode E n page (topId stack) (nextId st) = (r, s1)" by fastforce
  have ok: "processedOK E page (nextId st) r s1" using processNode_ok[OF r] .
  have stack_ids: "\<forall>e \<in> set stack. pid_id e \<in> node_id ` set (processedNodes st)"
    using inv set_popHeadings[of n "parentIdManager st"] by (auto simp: flattenOK_def stack_def)
  show ?thesis
  proof (cases r)
    case None
    have nh: "ast_type n \<noteq> MdNodeType_heading"
    proof
      assume "ast_type n = MdNodeType_heading"
      then show False
        using r None processNode_selected[of n P_parent E page "topId stack" "nextId st"]
        by (simp add: selectProcessor_heading)
    qed
    have s1: "s1 = nextId st" using ok None by (simp add: processedOK_def)
    have "sourceNodeStep E page n st =
        Some \<lparr>parentIdManager = stack, processedNodes = processedNodes st, nextId = nextId st\<rparr>"
      using r None nh s1 by (simp add: sourceNodeStep_def processRootNode_def stack_def)
    moreover have "flattenOK E page
        \<lparr>parentIdManager = stack, processedNodes = processedNodes st, nextId = nextId st\<rparr>"
      using inv stack_ids by (simp add: flattenOK_def)
    ultimately show ?thesis by simp
  next
    case (Some p)
    define m where "m = mainNode p"
    define out' where "out' = processedNodes st @ m # siblings p"
    have p: "nextId st \<le> node_id m" "s1 = Suc (node_id m)"
      "sibsOK E page (nextId st) (node_id m) (siblings p)"
      using ok Some by (simp_all add: processedOK_def m_def)
    have mf: "node_page m = Some page" "node_parentId m = topId stack"
      "node_type m = convertedType E (ast_type n)"
      using processNode_main[of E n page "topId stack" "nextId st" p s1] r Some
      by (simp_all add: m_def)
    have root: "processRootNode E n page (topId stack) (nextId st) = (m # siblings p, s1)"
      using r Some by (simp add: processRootNode_def m_def)
    define stack' where "stack' = (if ast_type n = MdNodeType_heading
      then stack @ [\<lparr>pid_id = node_id m, pid_depth = ast_depth n\<rparr>] else stack)"
    have step: "sourceNodeStep E page n st =
        Some \<lparr>parentIdManager = stack', processedNodes = out', nextId = s1\<rparr>"
      using root by (simp add: sourceNodeStep_def stack_def[symmetric] stack'_def out'_def)
    have par: "node_parentId m = None \<or>
        (\<exists>q \<in> node_id ` set (processedNodes st). node_parentId m = Some q)"
    proof (cases "topId stack")
      case None
      then show ?thesis using mf by simp
    next
      case (Some q)
      then show ?thesis using topId_in_stack[OF Some] stack_ids mf by auto
    qed
    have old_ids: "\<forall>x \<in> set (processedNodes st). node_id x < nextId st"
      using inv by (simp add: flattenOK_def)
    have refs: "refsOK E s1 out'"
      using refsOK_append[OF _ old_ids par p(1) p(3)] inv p(2)
      by (simp add: flattenOK_def out'_def)
    have ids: "\<forall>x \<in> set out'. node_id x < s1 \<and> node_page x = Some page \<and>
        (\<exists>t. node_type x = convertedType E t)"
    proof
      fix x assume "x \<in> set out'"
      then consider "x \<in> set (processedNodes st)" | "x = m" | "x \<in> set (siblings p)"
        by (auto simp: out'_def)
      then show "node_id x < s1 \<and> node_page x = Some page \<and>
          (\<exists>t. node_type x = convertedType E t)"
      proof cases
        case 1
        then show ?thesis using inv p by (fastforce simp: flattenOK_def)
      next
        case 2
        then show ?thesis using p mf by auto
      next
        case 3
        then have "node_id x < node_id m" "node_page x = Some page"
          "node_type x = convertedType E MdNodeType_list"
          using p(3) unfolding sibsOK_def by blast+
        then show ?thesis using p(2) by auto
      qed
    qed
    have stk: "\<forall>e \<in> set stack'. pid_id e \<in> node_id ` set out'"
      using stack_ids by (auto simp: stack'_def out'_def)
    have "flattenOK E page \<lparr>parentIdManager = stack', processedNodes = out', nextId = s1\<rparr>"
      using refs ids stk by (simp add: flattenOK_def)
    then show ?thesis using step by simp
  qed
qed

lemma forEachSourceNode_ok:
  "flattenOK E page st \<Longrightarrow>
     \<exists>st'. forEachSourceNode E page children st = Some st' \<and> flattenOK E page st'"
proof (induction children arbitrary: st)
  case Nil
  then show ?case by simp
next
  case (Cons c cs)
  obtain st1 where st1: "sourceNodeStep E page c st = Some st1" "flattenOK E page st1"
    using sourceNodeStep_ok[OF Cons.prems] by blast
  then show ?case using Cons.IH[OF st1(2)] by simp
qed

lemma flattenOK_init:
  "flattenOK E page \<lparr>parentIdManager = [], processedNodes = [], nextId = s\<rparr>"
  by (simp add: flattenOK_def refsOK_def)

lemma markdownToJson_ok:
  "\<exists>out s'. markdownToJson E children page s = Some out \<and> refsOK E s' out \<and>
     (\<forall>x \<in> set out. node_page x = Some page) \<and>
     (\<forall>x \<in> set out. \<exists>t. node_type x = convertedType E t)"
proof -
  obtain st' where st': "forEachSourceNode E page children
      \<lparr>parentIdManager = [], processedNodes = [], nextId = s\<rparr> = Some st'"
    "flattenOK E page st'"
    using forEachSourceNode_ok[OF flattenOK_init] by blast
  then show ?thesis by (auto simp: markdownToJson_def flattenOK_def)
qed

text \<open>Every node of the output sequence carries the page of the call.\<close>

lemma emitted_nodes_carry_page:
  "\<exists>out. markdownToJson E children page s = Some out \<and>
     (\<forall>x \<in> set out. node_page x = Some page)"
  using markdownToJson_ok[of E children page s] by blast

text \<open>
  Inside a block quote the list node itself is not emitted: the generic processor joins
  the values of the children into a string and passes on their siblings only. The
  nested list is emitted, with the id of an item that is nowhere in the output.
\<close>

lemma blockquoteListPage_output:
  "markdownToJson exampleEnum blockquoteListPage 1 0 =
     Some [ProcessedNode 8 (Some 1) None (Some ''text'') (VString ''[object Object]''),
           ProcessedNode 5 (Some 1) (Some 1) (Some ''list'')
             (VArray [VNode (ProcessedNode 3 (Some 1) None (Some ''text'') (VString ''b''))])]"
  by code_simp

lemma nestedListPage_output:
  "markdownToJson exampleEnum nestedListPage 1 0 =
     Some [ProcessedNode 7 (Some 1) None (Some ''list'')
             (VArray [VNode (ProcessedNode 1 (Some 1) None (Some ''text'') (VString ''a''))]),
           ProcessedNode 5 (Some 1) (Some 1) (Some ''list'')
             (VArray [VNode (ProcessedNode 3 (Some 1) None (Some ''text'') (VString ''b''))])]"
  by code_simp

text \<open>
  The nested list page: the second node of the output is the nested list, and its
  \<open>parentId\<close> 1 is the id of the item \<open>a\<close>, which is held in the value of the first node
  and is not a node of the sequence.
\<close>

theorem nested_list_parentId_counterexample:
  "markdownToJson exampleEnum nestedListPage 1 0 =
     Some [ProcessedNode 7 (Some 1) None (Some ''list'')
             (VArray [VNode (ProcessedNode 1 (Some 1) None (Some ''text'') (VString ''a''))]),
           ProcessedNode 5 (Some 1) (Some 1) (Some ''list'')
             (VArray [VNode (ProcessedNode 3 (Some 1) None (Some ''text'') (VString ''b''))])] \<and>
   \<not> parentIdsEmitted
     [ProcessedNode 7 (Some 1) None (Some ''list'')
        (VArray [VNode (ProcessedNode 1 (Some 1) None (Some ''text'') (VString ''a''))]),
      ProcessedNode 5 (Some 1) (Some 1) (Some ''list'')
        (VArray [VNode (ProcessedNode 3 (Some 1) None (Some ''text'') (VString ''b''))])]"
proof
  show "markdownToJson exampleEnum nestedListPage 1 0 =
     Some [ProcessedNode 7 (Some 1) None (Some ''list'')
             (VArray [VNode (ProcessedNode 1 (Some 1) None (Some ''text'') (VString ''a''))]),
           ProcessedNode 5 (Some 1) (Some 1) (Some ''list'')
             (VArray [VNode (ProcessedNode 3 (Some 1) None (Some ''text'') (VString ''b''))])]"
    by (rule nestedListPage_output)
  show "\<not> parentIdsEmitted
     [ProcessedNode 7 (Some 1) None (Some ''list'')
        (VArray [VNode (ProcessedNode 1 (Some 1) None (Some ''text'') (VString ''a''))]),
      ProcessedNode 5 (Some 1) (Some 1) (Some ''list'')
        (VArray [VNode (ProcessedNode 3 (Some 1) None (Some ''text'') (VString ''b''))])]"
    by code_simp
qed

lemma sourceNodeStep_group:
  assumes inv: "flattenOK E page st"
  shows "\<exists>st1 g. sourceNodeStep E page c st = Some st1 \<and> flattenOK E page st1 \<and>
      processedNodes st1 = processedNodes st @ g \<and>
      processRootNode E c page (topId (popHeadings c (parentIdManager st))) (nextId st)
        = (g, nextId st1) \<and>
      nextId st \<le> nextId st1 \<and>
      (\<forall>x \<in> set g. nextId st \<le> node_id x \<and> node_id x < nextId st1) \<and>
      (\<forall>e \<in> set (parentIdManager st1). e \<in> set (parentIdManager st) \<or>
          (ast_type c = MdNodeType_heading \<and> (\<exists>h rest. g = h # rest \<and> pid_id e = node_id h))) \<and>
      (\<forall>m sibs. g = m # sibs \<longrightarrow>
          (node_parentId m = None \<or>
           (\<exists>e \<in> set (parentIdManager st). node_parentId m = Some (pid_id e))) \<and>
          sibsOK E page (nextId st) (node_id m) sibs)"
proof -
  define stack where "stack = popHeadings c (parentIdManager st)"
  obtain st1 where st1: "sourceNodeStep E page c st = Some st1" "flattenOK E page st1"
    using sourceNodeStep_ok[OF inv] by blast
  obtain r s1 where r: "processNode E c page (topId stack) (nextId st) = (r, s1)" by fastforce
  have ok: "processedOK E page (nextId st) r s1" using processNode_ok[OF r] .
  have sub: "set stack \<subseteq> set (parentIdManager st)"
    using set_popHeadings[of c "parentIdManager st"] by (simp add: stack_def)
  show ?thesis
  proof (cases r)
    case None
    have nh: "ast_type c \<noteq> MdNodeType_heading"
    proof
      assume "ast_type c = MdNodeType_heading"
      then show False
        using r None processNode_selected[of c P_parent E page "topId stack" "nextId st"]
        by (simp add: selectProcessor_heading)
    qed
    have s1: "s1 = nextId st" using ok None by (simp add: processedOK_def)
    have root: "processRootNode E c page (topId stack) (nextId st) = ([], nextId st)"
      using r None s1 by (simp add: processRootNode_def)
    have eq: "st1 = \<lparr>parentIdManager = stack, processedNodes = processedNodes st,
        nextId = nextId st\<rparr>"
      using st1(1) root nh by (simp add: sourceNodeStep_def stack_def[symmetric])
    have "processedNodes st1 = processedNodes st @ []" "nextId st1 = nextId st"
      "parentIdManager st1 = stack"
      by (simp_all add: eq)
    then show ?thesis using st1 root sub
      by (intro exI[of _ st1] exI[of _ "[]"]) (auto simp: stack_def)
  next
    case (Some p)
    define m where "m = mainNode p"
    have p: "nextId st \<le> node_id m" "s1 = Suc (node_id m)"
      "sibsOK E page (nextId st) (node_id m) (siblings p)"
      using ok Some by (simp_all add: processedOK_def m_def)
    have mf: "node_parentId m = topId stack"
      using processNode_main[of E c page "topId stack" "nextId st" p s1] r Some
      by (simp_all add: m_def)
    have root: "processRootNode E c page (topId stack) (nextId st) = (m # siblings p, s1)"
      using r Some by (simp add: processRootNode_def m_def)
    define stack' where "stack' = (if ast_type c = MdNodeType_heading
      then stack @ [\<lparr>pid_id = node_id m, pid_depth = ast_depth c\<rparr>] else stack)"
    have step: "sourceNodeStep E page c st = Some \<lparr>parentIdManager = stack',
        processedNodes = processedNodes st @ m # siblings p, nextId = s1\<rparr>"
      using root by (simp add: sourceNodeStep_def stack_def[symmetric] stack'_def)
    have eq: "st1 = \<lparr>parentIdManager = stack',
        processedNodes = processedNodes st @ m # siblings p, nextId = s1\<rparr>"
      using st1(1) step by simp
    have f1: "processedNodes st1 = processedNodes st @ (m # siblings p)" "nextId st1 = s1"
      "parentIdManager st1 = stack'"
      by (simp_all add: eq)
    have par: "node_parentId m = None \<or>
        (\<exists>e \<in> set (parentIdManager st). node_parentId m = Some (pid_id e))"
    proof (cases "topId stack")
      case None
      then show ?thesis using mf by simp
    next
      case (Some q)
      then show ?thesis using topId_in_stack[OF Some] sub mf by auto
    qed
    have ids: "\<forall>x \<in> set (m # siblings p). nextId st \<le> node_id x \<and> node_id x < s1"
      using p sibsOK_ids[OF p(3)] by fastforce
    have stk: "\<forall>e \<in> set stack'. e \<in> set (parentIdManager st) \<or>
          (ast_type c = MdNodeType_heading \<and>
           (\<exists>h rest. m # siblings p = h # rest \<and> pid_id e = node_id h))"
      using sub by (auto simp: stack'_def)
    have "sourceNodeStep E page c st = Some st1 \<and> flattenOK E page st1 \<and>
      processedNodes st1 = processedNodes st @ (m # siblings p) \<and>
      processRootNode E c page (topId (popHeadings c (parentIdManager st))) (nextId st)
        = (m # siblings p, nextId st1) \<and>
      nextId st \<le> nextId st1 \<and>
      (\<forall>x \<in> set (m # siblings p). nextId st \<le> node_id x \<and> node_id x < nextId st1) \<and>
      (\<forall>e \<in> set (parentIdManager st1). e \<in> set (parentIdManager st) \<or>
          (ast_type c = MdNodeType_heading \<and>
           (\<exists>h rest. m # siblings p = h # rest \<and> pid_id e = node_id h))) \<and>
      (\<forall>m' sibs. m # siblings p = m' # sibs \<longrightarrow>
          (node_parentId m' = None \<or>
           (\<exists>e \<in> set (parentIdManager st). node_parentId m' = Some (pid_id e))) \<and>
          sibsOK E page (nextId st) (node_id m') sibs)"
      using st1 f1 root ids stk par p by (simp add: stack_def)
    then show ?thesis by blast
  qed
qed

lemma groupOK_first:
  assumes par: "\<forall>m sibs. g = m # sibs \<longrightarrow>
          (node_parentId m = None \<or>
           (\<exists>e \<in> set stack. node_parentId m = Some (pid_id e))) \<and>
          sibsOK E page s (node_id m) sibs"
    and old: "\<forall>y \<in> set old. node_id y < s"
    and gids: "\<forall>x \<in> set g. node_id x < s1"
    and later: "\<forall>x \<in> set (concat gs). s1 \<le> node_id x"
  shows "groupOK E stack (c # cs) (g # gs) (old @ concat (g # gs)) 0"
  unfolding groupOK_def
proof (intro allI impI)
  fix m sibs assume "(g # gs) ! 0 = m # sibs"
  then have gm: "g = m # sibs" by simp
  have p1: "node_parentId m = None \<or>
           (\<exists>e \<in> set stack. node_parentId m = Some (pid_id e))"
    using par gm by blast
  have sok: "sibsOK E page s (node_id m) sibs"
    using par gm by blast
  have mlt: "node_id m < s1" using gids gm by simp
  have sib: "\<forall>x \<in> set sibs. node_type x = convertedType E MdNodeType_list \<and>
        (\<exists>p. node_parentId x = Some p \<and>
           (\<forall>y \<in> set (old @ concat (g # gs)). node_id y \<noteq> p))"
  proof
    fix x assume x: "x \<in> set sibs"
    then obtain p where p: "node_parentId x = Some p" "s \<le> p" "p < node_id m"
        "\<forall>y \<in> set sibs. node_id y \<noteq> p"
      and ty: "node_type x = convertedType E MdNodeType_list"
      using sok unfolding sibsOK_def by blast
    have "\<forall>y \<in> set old. node_id y \<noteq> p" using old p(2) by fastforce
    moreover have "\<forall>y \<in> set g. node_id y \<noteq> p" using gm p(3,4) by auto
    moreover have "\<forall>y \<in> set (concat gs). node_id y \<noteq> p"
    proof
      fix y assume "y \<in> set (concat gs)"
      then have "s1 \<le> node_id y" using later by blast
      then show "node_id y \<noteq> p" using p(3) mlt by simp
    qed
    ultimately have "\<forall>y \<in> set (old @ concat (g # gs)). node_id y \<noteq> p"
      by (simp add: ball_Un)
    then show "node_type x = convertedType E MdNodeType_list \<and>
        (\<exists>p. node_parentId x = Some p \<and>
           (\<forall>y \<in> set (old @ concat (g # gs)). node_id y \<noteq> p))"
      using p(1) ty by blast
  qed
  show "(node_parentId m = None \<or>
         (\<exists>e \<in> set stack. node_parentId m = Some (pid_id e)) \<or>
         (\<exists>j < 0. \<exists>h rest. ast_type ((c # cs) ! j) = MdNodeType_heading \<and>
             (g # gs) ! j = h # rest \<and> node_parentId m = Some (node_id h))) \<and>
        (\<forall>x \<in> set sibs. node_type x = convertedType E MdNodeType_list \<and>
           (\<exists>p. node_parentId x = Some p \<and>
              (\<forall>y \<in> set (old @ concat (g # gs)). node_id y \<noteq> p)))"
    using p1 sib by blast
qed

lemma groupOK_later:
  assumes ok: "groupOK E stack1 cs gs out i"
    and stk: "\<forall>e \<in> set stack1. e \<in> set stack \<or>
          (ast_type c = MdNodeType_heading \<and> (\<exists>h rest. g = h # rest \<and> pid_id e = node_id h))"
  shows "groupOK E stack (c # cs) (g # gs) out (Suc i)"
  unfolding groupOK_def
proof (intro allI impI)
  fix m sibs assume "(g # gs) ! Suc i = m # sibs"
  then have gm: "gs ! i = m # sibs" by simp
  have par1: "node_parentId m = None \<or>
      (\<exists>e \<in> set stack1. node_parentId m = Some (pid_id e)) \<or>
      (\<exists>j < i. \<exists>h rest. ast_type (cs ! j) = MdNodeType_heading \<and>
          gs ! j = h # rest \<and> node_parentId m = Some (node_id h))"
    using ok gm unfolding groupOK_def by blast
  have sib: "\<forall>x \<in> set sibs. node_type x = convertedType E MdNodeType_list \<and>
        (\<exists>p. node_parentId x = Some p \<and> (\<forall>y \<in> set out. node_id y \<noteq> p))"
    using ok gm unfolding groupOK_def by blast
  have par: "node_parentId m = None \<or>
      (\<exists>e \<in> set stack. node_parentId m = Some (pid_id e)) \<or>
      (\<exists>j < Suc i. \<exists>h rest. ast_type ((c # cs) ! j) = MdNodeType_heading \<and>
          (g # gs) ! j = h # rest \<and> node_parentId m = Some (node_id h))"
    using par1
  proof (elim disjE bexE exE conjE)
    assume "node_parentId m = None"
    then show ?thesis by simp
  next
    fix e assume e: "e \<in> set stack1" "node_parentId m = Some (pid_id e)"
    from stk e(1) have "e \<in> set stack \<or>
          (ast_type c = MdNodeType_heading \<and> (\<exists>h rest. g = h # rest \<and> pid_id e = node_id h))"
      by simp
    then show ?thesis
    proof (elim disjE exE conjE)
      assume "e \<in> set stack"
      then show ?thesis using e(2) by blast
    next
      fix h rest assume hd: "ast_type c = MdNodeType_heading" "g = h # rest"
        "pid_id e = node_id h"
      have "(0::nat) < Suc i" by simp
      moreover have "ast_type ((c # cs) ! 0) = MdNodeType_heading" using hd(1) by simp
      moreover have "(g # gs) ! 0 = h # rest" using hd(2) by simp
      moreover have "node_parentId m = Some (node_id h)" using e(2) hd(3) by simp
      ultimately show ?thesis by blast
    qed
  next
    fix j h rest assume j: "j < i" "ast_type (cs ! j) = MdNodeType_heading"
      "gs ! j = h # rest" "node_parentId m = Some (node_id h)"
    have "Suc j < Suc i" using j(1) by simp
    moreover have "ast_type ((c # cs) ! Suc j) = MdNodeType_heading" using j(2) by simp
    moreover have "(g # gs) ! Suc j = h # rest" using j(3) by simp
    ultimately show ?thesis using j(4) by blast
  qed
  show "(node_parentId m = None \<or>
      (\<exists>e \<in> set stack. node_parentId m = Some (pid_id e)) \<or>
      (\<exists>j < Suc i. \<exists>h rest. ast_type ((c # cs) ! j) = MdNodeType_heading \<and>
          (g # gs) ! j = h # rest \<and> node_parentId m = Some (node_id h))) \<and>
     (\<forall>x \<in> set sibs. node_type x = convertedType E MdNodeType_list \<and>
        (\<exists>p. node_parentId x = Some p \<and> (\<forall>y \<in> set out. node_id y \<noteq> p)))"
    using par sib by blast
qed

lemma forEachSourceNode_groups:
  "flattenOK E page st \<Longrightarrow>
   \<exists>st' groups. forEachSourceNode E page cs st = Some st' \<and> flattenOK E page st' \<and>
     processedNodes st' = processedNodes st @ concat groups \<and> length groups = length cs \<and>
     (\<forall>x \<in> set (concat groups). nextId st \<le> node_id x) \<and>
     (\<forall>i < length cs.
        (\<exists>parentId si si'. processRootNode E (cs ! i) page parentId si = (groups ! i, si')) \<and>
        groupOK E (parentIdManager st) cs groups (processedNodes st @ concat groups) i)"
proof (induction cs arbitrary: st)
  case Nil
  then show ?case by (intro exI[of _ st] exI[of _ "[]"]) simp
next
  case (Cons c cs)
  from sourceNodeStep_group[OF Cons.prems, of c]
  obtain st1 g where step: "sourceNodeStep E page c st = Some st1"
    and inv1: "flattenOK E page st1"
    and out1: "processedNodes st1 = processedNodes st @ g"
    and root: "processRootNode E c page (topId (popHeadings c (parentIdManager st))) (nextId st)
        = (g, nextId st1)"
    and le1: "nextId st \<le> nextId st1"
    and gids: "\<forall>x \<in> set g. nextId st \<le> node_id x \<and> node_id x < nextId st1"
    and stk: "\<forall>e \<in> set (parentIdManager st1). e \<in> set (parentIdManager st) \<or>
          (ast_type c = MdNodeType_heading \<and> (\<exists>h rest. g = h # rest \<and> pid_id e = node_id h))"
    and grp: "\<forall>m sibs. g = m # sibs \<longrightarrow>
          (node_parentId m = None \<or>
           (\<exists>e \<in> set (parentIdManager st). node_parentId m = Some (pid_id e))) \<and>
          sibsOK E page (nextId st) (node_id m) sibs"
    by (elim exE conjE) (rule that)
  from Cons.IH[OF inv1]
  obtain st' gs where run: "forEachSourceNode E page cs st1 = Some st'"
    and inv': "flattenOK E page st'"
    and out': "processedNodes st' = processedNodes st1 @ concat gs"
    and len: "length gs = length cs"
    and gsids: "\<forall>x \<in> set (concat gs). nextId st1 \<le> node_id x"
    and rest: "\<forall>i < length cs.
        (\<exists>parentId si si'. processRootNode E (cs ! i) page parentId si = (gs ! i, si')) \<and>
        groupOK E (parentIdManager st1) cs gs (processedNodes st1 @ concat gs) i"
    by (elim exE conjE) (rule that)
  have out_eq: "processedNodes st1 @ concat gs = processedNodes st @ concat (g # gs)"
    using out1 by simp
  have old_ids: "\<forall>y \<in> set (processedNodes st). node_id y < nextId st"
    using Cons.prems by (simp add: flattenOK_def)
  have a: "forEachSourceNode E page (c # cs) st = Some st'" using step run by simp
  have b: "processedNodes st' = processedNodes st @ concat (g # gs)" using out1 out' by simp
  have c: "length (g # gs) = length (c # cs)" using len by simp
  have d: "\<forall>x \<in> set (concat (g # gs)). nextId st \<le> node_id x"
  proof
    fix x assume "x \<in> set (concat (g # gs))"
    then consider "x \<in> set g" | "x \<in> set (concat gs)" by auto
    then show "nextId st \<le> node_id x"
    proof cases
      case 1
      then show ?thesis using gids by blast
    next
      case 2
      then have "nextId st1 \<le> node_id x" using gsids by blast
      then show ?thesis using le1 by simp
    qed
  qed
  have first: "groupOK E (parentIdManager st) (c # cs) (g # gs)
      (processedNodes st @ concat (g # gs)) 0"
  proof (rule groupOK_first[OF grp old_ids _ gsids])
    show "\<forall>x \<in> set g. node_id x < nextId st1" using gids by blast
  qed
  have e: "\<forall>i < length (c # cs).
        (\<exists>parentId si si'. processRootNode E ((c # cs) ! i) page parentId si
            = ((g # gs) ! i, si')) \<and>
        groupOK E (parentIdManager st) (c # cs) (g # gs)
          (processedNodes st @ concat (g # gs)) i"
  proof (intro allI impI)
    fix i assume i: "i < length (c # cs)"
    show "(\<exists>parentId si si'. processRootNode E ((c # cs) ! i) page parentId si
            = ((g # gs) ! i, si')) \<and>
        groupOK E (parentIdManager st) (c # cs) (g # gs)
          (processedNodes st @ concat (g # gs)) i"
    proof (cases i)
      case 0
      have "\<exists>parentId si si'. processRootNode E ((c # cs) ! 0) page parentId si
            = ((g # gs) ! 0, si')"
        using root by auto
      then show ?thesis using first 0 by simp
    next
      case (Suc i')
      then have i': "i' < length cs" using i by simp
      have ri: "\<exists>parentId si si'. processRootNode E (cs ! i') page parentId si = (gs ! i', si')"
        using rest[rule_format, OF i'] by (rule conjunct1)
      have gi: "groupOK E (parentIdManager st1) cs gs (processedNodes st1 @ concat gs) i'"
        using rest[rule_format, OF i'] by (rule conjunct2)
      have "groupOK E (parentIdManager st) (c # cs) (g # gs)
          (processedNodes st @ concat (g # gs)) (Suc i')"
        using groupOK_later[OF gi stk] out_eq by simp
      then show ?thesis using ri Suc by simp
    qed
  qed
  show ?case
  proof (intro exI[of _ st'] exI[of _ "g # gs"] conjI)
    show "forEachSourceNode E page (c # cs) st = Some st'" by (rule a)
    show "flattenOK E page st'" by (rule inv')
    show "processedNodes st' = processedNodes st @ concat (g # gs)" by (rule b)
    show "length (g # gs) = length (c # cs)" by (rule c)
    show "\<forall>x \<in> set (concat (g # gs)). nextId st \<le> node_id x" by (rule d)
    show "\<forall>i < length (c # cs).
        (\<exists>parentId si si'. processRootNode E ((c # cs) ! i) page parentId si
            = ((g # gs) ! i, si')) \<and>
        groupOK E (parentIdManager st) (c # cs) (g # gs)
          (processedNodes st @ concat (g # gs)) i" by (rule e)
  qed
qed

text \<open>
  C1. \<open>markdownToJson\<close> returns for every page, and its output is the concatenation, in
  order, of the groups \<open>processRootNode\<close> returns for the top-level children: the main
  node of the child, then its siblings. The main node of a child has no \<open>parentId\<close>, or
  its \<open>parentId\<close> is the id of the main node of an earlier top-level child that is a
  heading. Every sibling has the output type of the list kind and a \<open>parentId\<close> that is
  the id of no node of the output sequence. So a \<open>parentId\<close> that is present is the id of
  a node emitted strictly earlier, or the id of no node of the output sequence.
\<close>

theorem parentId_heading_or_nested_list:
  "\<exists>groups. markdownToJson E children page s = Some (concat groups) \<and>
     length groups = length children \<and>
     (\<forall>i < length children.
        (\<exists>parentId si si'.
            processRootNode E (children ! i) page parentId si = (groups ! i, si')) \<and>
        (\<forall>m sibs. groups ! i = m # sibs \<longrightarrow>
           (node_parentId m = None \<or>
            (\<exists>j < i. \<exists>h rest. ast_type (children ! j) = MdNodeType_heading \<and>
                groups ! j = h # rest \<and> node_parentId m = Some (node_id h))) \<and>
           (\<forall>x \<in> set sibs. node_type x = convertedType E MdNodeType_list \<and>
              (\<exists>p. node_parentId x = Some p \<and>
                 (\<forall>y \<in> set (concat groups). node_id y \<noteq> p))))) \<and>
     (\<forall>k < length (concat groups). \<forall>p. node_parentId (concat groups ! k) = Some p \<longrightarrow>
        (\<exists>j < k. node_id (concat groups ! j) = p) \<or>
        (\<forall>j < length (concat groups). node_id (concat groups ! j) \<noteq> p))"
proof -
  let ?st0 = "\<lparr>parentIdManager = [], processedNodes = [], nextId = s\<rparr>"
  from forEachSourceNode_groups[OF flattenOK_init[of E page s], of children]
  obtain st' groups where run: "forEachSourceNode E page children ?st0 = Some st'"
    and inv': "flattenOK E page st'"
    and out': "processedNodes st' = processedNodes ?st0 @ concat groups"
    and len: "length groups = length children"
    and rest: "\<forall>i < length children.
        (\<exists>parentId si si'.
            processRootNode E (children ! i) page parentId si = (groups ! i, si')) \<and>
        groupOK E (parentIdManager ?st0) children groups
          (processedNodes ?st0 @ concat groups) i"
    by (elim exE conjE) (rule that)
  have out: "processedNodes st' = concat groups" using out' by simp
  have res: "markdownToJson E children page s = Some (concat groups)"
    using run out by (simp add: markdownToJson_def)
  have grp: "\<forall>i < length children.
        (\<exists>parentId si si'.
            processRootNode E (children ! i) page parentId si = (groups ! i, si')) \<and>
        (\<forall>m sibs. groups ! i = m # sibs \<longrightarrow>
           (node_parentId m = None \<or>
            (\<exists>j < i. \<exists>h rest. ast_type (children ! j) = MdNodeType_heading \<and>
                groups ! j = h # rest \<and> node_parentId m = Some (node_id h))) \<and>
           (\<forall>x \<in> set sibs. node_type x = convertedType E MdNodeType_list \<and>
              (\<exists>p. node_parentId x = Some p \<and>
                 (\<forall>y \<in> set (concat groups). node_id y \<noteq> p))))"
  proof (intro allI impI)
    fix i assume i: "i < length children"
    have ri: "\<exists>parentId si si'.
            processRootNode E (children ! i) page parentId si = (groups ! i, si')"
      using rest[rule_format, OF i] by (rule conjunct1)
    have "groupOK E (parentIdManager ?st0) children groups
          (processedNodes ?st0 @ concat groups) i"
      using rest[rule_format, OF i] by (rule conjunct2)
    then have gi: "\<forall>m sibs. groups ! i = m # sibs \<longrightarrow>
           (node_parentId m = None \<or>
            (\<exists>j < i. \<exists>h rest. ast_type (children ! j) = MdNodeType_heading \<and>
                groups ! j = h # rest \<and> node_parentId m = Some (node_id h))) \<and>
           (\<forall>x \<in> set sibs. node_type x = convertedType E MdNodeType_list \<and>
              (\<exists>p. node_parentId x = Some p \<and>
                 (\<forall>y \<in> set (concat groups). node_id y \<noteq> p)))"
      by (simp add: groupOK_def)
    show "(\<exists>parentId si si'.
            processRootNode E (children ! i) page parentId si = (groups ! i, si')) \<and>
        (\<forall>m sibs. groups ! i = m # sibs \<longrightarrow>
           (node_parentId m = None \<or>
            (\<exists>j < i. \<exists>h rest. ast_type (children ! j) = MdNodeType_heading \<and>
                groups ! j = h # rest \<and> node_parentId m = Some (node_id h))) \<and>
           (\<forall>x \<in> set sibs. node_type x = convertedType E MdNodeType_list \<and>
              (\<exists>p. node_parentId x = Some p \<and>
                 (\<forall>y \<in> set (concat groups). node_id y \<noteq> p))))"
      using ri gi by (rule conjI)
  qed
  have refs: "refsOK E (nextId st') (concat groups)"
    using inv' out by (simp add: flattenOK_def)
  have idx: "\<forall>k < length (concat groups). \<forall>p. node_parentId (concat groups ! k) = Some p \<longrightarrow>
        (\<exists>j < k. node_id (concat groups ! j) = p) \<or>
        (\<forall>j < length (concat groups). node_id (concat groups ! j) \<noteq> p)"
  proof (intro allI impI)
    fix k p
    assume k: "k < length (concat groups)" and p: "node_parentId (concat groups ! k) = Some p"
    then have "(\<exists>j < k. node_id (concat groups ! j) = p) \<or>
        (\<forall>x \<in> set (concat groups). node_id x \<noteq> p)"
      using refs unfolding refsOK_def by blast
    then show "(\<exists>j < k. node_id (concat groups ! j) = p) \<or>
        (\<forall>j < length (concat groups). node_id (concat groups ! j) \<noteq> p)"
      using nth_mem by blast
  qed
  show ?thesis
  proof (intro exI[of _ groups] conjI)
    show "markdownToJson E children page s = Some (concat groups)" by (rule res)
    show "length groups = length children" by (rule len)
    show "\<forall>i < length children.
        (\<exists>parentId si si'.
            processRootNode E (children ! i) page parentId si = (groups ! i, si')) \<and>
        (\<forall>m sibs. groups ! i = m # sibs \<longrightarrow>
           (node_parentId m = None \<or>
            (\<exists>j < i. \<exists>h rest. ast_type (children ! j) = MdNodeType_heading \<and>
                groups ! j = h # rest \<and> node_parentId m = Some (node_id h))) \<and>
           (\<forall>x \<in> set sibs. node_type x = convertedType E MdNodeType_list \<and>
              (\<exists>p. node_parentId x = Some p \<and>
                 (\<forall>y \<in> set (concat groups). node_id y \<noteq> p))))" by (rule grp)
    show "\<forall>k < length (concat groups). \<forall>p. node_parentId (concat groups ! k) = Some p \<longrightarrow>
        (\<exists>j < k. node_id (concat groups ! j) = p) \<or>
        (\<forall>j < length (concat groups). node_id (concat groups ! j) \<noteq> p)" by (rule idx)
  qed
qed

lemma headingListPage_output:
  "markdownToJson exampleEnum headingListPage 1 0 =
     Some [ProcessedNode 1 (Some 1) None (Some ''heading'') (VString ''T''),
           ProcessedNode 9 (Some 1) (Some 1) (Some ''list'')
             (VArray [VNode (ProcessedNode 3 (Some 1) None (Some ''text'') (VString ''a''))]),
           ProcessedNode 7 (Some 1) (Some 3) (Some ''list'')
             (VArray [VNode (ProcessedNode 5 (Some 1) None (Some ''text'') (VString ''b''))])]"
  by code_simp

lemma append_eq_three:
  "g0 @ g1 = [a, b, c] \<Longrightarrow>
     (g0 = [] \<and> g1 = [a, b, c]) \<or> (g0 = [a] \<and> g1 = [b, c]) \<or>
     (g0 = [a, b] \<and> g1 = [c]) \<or> (g0 = [a, b, c] \<and> g1 = [])"
  by (auto simp: append_eq_Cons_conv)

text \<open>
  A heading followed by the list with a nested list: the output splits into the group of
  the heading and the group of the list, whose sibling is the nested list.
\<close>

theorem parentId_heading_or_nested_list_witness:
  "\<exists>groups. markdownToJson exampleEnum headingListPage 1 0 = Some (concat groups) \<and>
     groups =
       [[ProcessedNode 1 (Some 1) None (Some ''heading'') (VString ''T'')],
        [ProcessedNode 9 (Some 1) (Some 1) (Some ''list'')
           (VArray [VNode (ProcessedNode 3 (Some 1) None (Some ''text'') (VString ''a''))]),
         ProcessedNode 7 (Some 1) (Some 3) (Some ''list'')
           (VArray [VNode (ProcessedNode 5 (Some 1) None (Some ''text'') (VString ''b''))])]] \<and>
     ast_type (headingListPage ! 0) = MdNodeType_heading"
proof -
  let ?H = "ProcessedNode 1 (Some 1) None (Some ''heading'') (VString ''T'')"
  let ?L1 = "ProcessedNode 9 (Some 1) (Some 1) (Some ''list'')
           (VArray [VNode (ProcessedNode 3 (Some 1) None (Some ''text'') (VString ''a''))])"
  let ?L2 = "ProcessedNode 7 (Some 1) (Some 3) (Some ''list'')
           (VArray [VNode (ProcessedNode 5 (Some 1) None (Some ''text'') (VString ''b''))])"
  from parentId_heading_or_nested_list[of exampleEnum headingListPage 1 0]
  obtain groups where res: "markdownToJson exampleEnum headingListPage 1 0 = Some (concat groups)"
    and len: "length groups = length headingListPage"
    and grp: "\<forall>i < length headingListPage.
        (\<exists>parentId si si'.
            processRootNode exampleEnum (headingListPage ! i) 1 parentId si = (groups ! i, si')) \<and>
        (\<forall>m sibs. groups ! i = m # sibs \<longrightarrow>
           (node_parentId m = None \<or>
            (\<exists>j < i. \<exists>h rest. ast_type (headingListPage ! j) = MdNodeType_heading \<and>
                groups ! j = h # rest \<and> node_parentId m = Some (node_id h))) \<and>
           (\<forall>x \<in> set sibs. node_type x = convertedType exampleEnum MdNodeType_list \<and>
              (\<exists>p. node_parentId x = Some p \<and>
                 (\<forall>y \<in> set (concat groups). node_id y \<noteq> p))))"
    by (elim exE conjE) (rule that)
  have out: "concat groups = [?H, ?L1, ?L2]"
    using res headingListPage_output by simp
  have len2: "length groups = 2"
    using len by (simp add: headingListPage_def nestedListPage_def)
  then obtain g0 g1 where gs: "groups = [g0, g1]"
    by (cases groups; cases "tl groups") auto
  have app: "g0 @ g1 = [?H, ?L1, ?L2]" using out gs by simp
  have not_sib: "?L1 \<notin> set sibs" if i2: "i < 2" and gi: "groups ! i = m # sibs" for i m sibs
  proof
    assume "?L1 \<in> set sibs"
    moreover have "i < length headingListPage" using i2 len len2 by simp
    ultimately obtain p where p: "node_parentId ?L1 = Some p"
        "\<forall>y \<in> set (concat groups). node_id y \<noteq> p"
      using grp gi by blast
    have "p = 1" using p(1) by simp
    moreover have "?H \<in> set (concat groups)" using out by simp
    ultimately show False using p(2) by fastforce
  qed
  have "g0 = [?H] \<and> g1 = [?L1, ?L2]"
    using append_eq_three[OF app]
  proof (elim disjE conjE)
    assume "g0 = []" "g1 = [?H, ?L1, ?L2]"
    then show ?thesis using not_sib[of 1 ?H "[?L1, ?L2]"] gs by simp
  next
    assume "g0 = [?H]" "g1 = [?L1, ?L2]"
    then show ?thesis by simp
  next
    assume "g0 = [?H, ?L1]" "g1 = [?L2]"
    then show ?thesis using not_sib[of 0 ?H "[?L1]"] gs by simp
  next
    assume "g0 = [?H, ?L1, ?L2]" "g1 = []"
    then show ?thesis using not_sib[of 0 ?H "[?L1, ?L2]"] gs by simp
  qed
  then have "groups = [[?H], [?L1, ?L2]]" using gs by simp
  moreover have "ast_type (headingListPage ! 0) = MdNodeType_heading"
    by (simp add: headingListPage_def headingNode_def)
  ultimately show ?thesis using res by blast
qed

text \<open>
  C9. When the kind of a node is not a member name of \<open>ConvertedNodeType\<close>, the node
  \<open>processNode\<close> returns for it has the type \<open>ConvertedNodeType.text\<close>. With the member
  \<open>text\<close> in the enum, which \<open>utils.ts\<close> names, the type of every node of the output of
  \<open>markdownToJson\<close> is defined, for every page and every supply of identifiers.
\<close>

theorem unrecognized_kind_is_text:
  "(processNode E n page parentId s = (Some r, s') \<and> E (ast_type n) = None \<longrightarrow>
      node_type (mainNode r) = ConvertedNodeType_text E) \<and>
   (ConvertedNodeType_text E \<noteq> None \<longrightarrow>
      (\<exists>out. markdownToJson E children page s = Some out \<and>
         (\<forall>x \<in> set out. node_type x \<noteq> None)))"
proof (intro conjI impI)
  assume "processNode E n page parentId s = (Some r, s') \<and> E (ast_type n) = None"
  then show "node_type (mainNode r) = ConvertedNodeType_text E"
    using processNode_main[of E n page parentId s r s'] by (simp add: convertedType_unrecognized)
next
  assume a: "ConvertedNodeType_text E \<noteq> None"
  obtain out where out: "markdownToJson E children page s = Some out"
    and ty: "\<forall>x \<in> set out. \<exists>t. node_type x = convertedType E t"
    using markdownToJson_ok[of E children page s] by blast
  have "\<forall>x \<in> set out. node_type x \<noteq> None"
    using ty a convertedType_defined[of E] by (fastforce simp: ConvertedNodeType_text_def)
  then show "\<exists>out. markdownToJson E children page s = Some out \<and>
         (\<forall>x \<in> set out. node_type x \<noteq> None)"
    using out by blast
qed

text \<open>A paragraph: \<open>paragraph\<close> is not a member of the example enum.\<close>

theorem unrecognized_kind_is_text_witness:
  "exampleEnum (ast_type (paragraphNode [textNode ''x''])) = None \<and>
   processNode exampleEnum (paragraphNode [textNode ''x'']) 1 None 0 =
     (Some \<lparr>mainNode = ProcessedNode 1 (Some 1) None (Some ''text'') (VString ''x''),
             siblings = []\<rparr>, 2) \<and>
   ConvertedNodeType_text exampleEnum = Some ''text'' \<and>
   node_type (ProcessedNode 1 (Some 1) None (Some ''text'') (VString ''x'')) =
     ConvertedNodeType_text exampleEnum"
proof -
  have k: "exampleEnum (ast_type (paragraphNode [textNode ''x''])) = None"
    by (simp add: exampleEnum_def paragraphNode_def)
  have r: "processNode exampleEnum (paragraphNode [textNode ''x'']) 1 None 0 =
     (Some \<lparr>mainNode = ProcessedNode 1 (Some 1) None (Some ''text'') (VString ''x''),
             siblings = []\<rparr>, 2)"
    by code_simp
  have t: "ConvertedNodeType_text exampleEnum = Some ''text''"
    by (simp add: ConvertedNodeType_text_def exampleEnum_def)
  have "node_type (mainNode \<lparr>mainNode = ProcessedNode 1 (Some 1) None (Some ''text'') (VString ''x''),
             siblings = []\<rparr>) = ConvertedNodeType_text exampleEnum"
    using unrecognized_kind_is_text[of exampleEnum "paragraphNode [textNode ''x'']" 1 None 0
        "\<lparr>mainNode = ProcessedNode 1 (Some 1) None (Some ''text'') (VString ''x''),
             siblings = []\<rparr>" 2] k r by blast
  then show ?thesis using k r t by simp
qed

subsection \<open>The heading stack\<close>

lemma popLoop_Nil: "popLoop i d [] = []"
  by (induction i) simp_all

lemma popLoop_step:
  "popLoop (Suc i) d (stack @ [x]) = (if d > topDepth stack then stack else popLoop i d stack)"
  by simp

lemma topDepth_snoc: "topDepth (stack @ [x]) = pid_depth x"
  by (simp add: topDepth_def)

lemma popLoop_snoc:
  "length stack \<le> i \<Longrightarrow> d \<le> pid_depth x \<Longrightarrow>
     popLoop (Suc i) d (stack @ [x]) = rev (dropWhile (\<lambda>e. d \<le> pid_depth e) (rev stack))"
proof (induction i arbitrary: stack x)
  case 0
  then show ?case by (simp add: popLoop_Nil)
next
  case (Suc i)
  show ?case
  proof (cases stack rule: rev_cases)
    case Nil
    then show ?thesis
      using popLoop_step[of "Suc i" d "[]" x] by (simp add: popLoop_Nil del: popLoop.simps)
  next
    case (snoc ys y)
    show ?thesis
    proof (cases "d \<le> pid_depth y")
      case True
      have "popLoop (Suc i) d (ys @ [y]) = rev (dropWhile (\<lambda>e. d \<le> pid_depth e) (rev ys))"
        using Suc.IH[of ys y] Suc.prems(1) True snoc by simp
      moreover have "popLoop (Suc (Suc i)) d (stack @ [x]) = popLoop (Suc i) d (ys @ [y])"
        using True snoc popLoop_step[of "Suc i" d stack x] by (simp add: topDepth_snoc)
      moreover have "rev (dropWhile (\<lambda>e. d \<le> pid_depth e) (rev stack)) =
          rev (dropWhile (\<lambda>e. d \<le> pid_depth e) (rev ys))"
        using True snoc by simp
      ultimately show ?thesis by simp
    next
      case False
      have "popLoop (Suc (Suc i)) d (stack @ [x]) = stack"
        using False snoc popLoop_step[of "Suc i" d stack x] by (simp add: topDepth_snoc)
      moreover have "rev (dropWhile (\<lambda>e. d \<le> pid_depth e) (rev stack)) = stack"
        using False snoc by simp
      ultimately show ?thesis by simp
    qed
  qed
qed

lemma popHeadings_dropWhile:
  assumes "ast_type n = MdNodeType_heading" and "ast_depth n \<le> topDepth stack"
  shows "popHeadings n stack = rev (dropWhile (\<lambda>e. ast_depth n \<le> pid_depth e) (rev stack))"
proof (cases stack rule: rev_cases)
  case Nil
  then show ?thesis using assms by (simp add: popHeadings_def)
next
  case (snoc ys y)
  have "ast_depth n \<le> pid_depth y" using assms(2) snoc by (simp add: topDepth_def)
  then show ?thesis
    using assms popLoop_snoc[of ys "length ys" "ast_depth n" y] snoc
    by (simp add: popHeadings_def)
qed

lemma topDepth_rev_dropWhile:
  "rev (dropWhile (\<lambda>e. d \<le> pid_depth e) zs) = [] \<or>
   topDepth (rev (dropWhile (\<lambda>e. d \<le> pid_depth e) zs)) < d"
proof (cases "dropWhile (\<lambda>e. d \<le> pid_depth e) zs")
  case Nil
  then show ?thesis by simp
next
  case (Cons z rest)
  have "\<not> d \<le> pid_depth z"
    using Cons hd_dropWhile[of "\<lambda>e. d \<le> pid_depth e" zs] by fastforce
  then show ?thesis using Cons by (simp add: topDepth_def)
qed

text \<open>
  C2. When a top-level heading arrives whose depth is at most the depth of the top of
  the heading stack, the entries of depth at least the heading's depth are popped from
  the top, and the stack that remains is empty or has a top of strictly smaller depth.
  For a page of five headings of depths 1, 2, 3, 2, 1 the heading of depth 3 has the id
  of the first heading of depth 2 as \<open>parentId\<close>, the second heading of depth 2 has the
  id of the first heading of depth 1, and the last heading has no \<open>parentId\<close>.
\<close>

theorem heading_stack_pops:
  "(ast_type n = MdNodeType_heading \<and> ast_depth n \<le> topDepth stack \<longrightarrow>
      popHeadings n stack = rev (dropWhile (\<lambda>e. ast_depth n \<le> pid_depth e) (rev stack)) \<and>
      (popHeadings n stack = [] \<or> topDepth (popHeadings n stack) < ast_depth n)) \<and>
   markdownToJson E [headingNode 1 a, headingNode 2 b, headingNode 3 c,
        headingNode 2 d, headingNode 1 e] page s =
     Some [ProcessedNode (s + 1) (Some page) None (convertedType E MdNodeType_heading) (VString a),
           ProcessedNode (s + 3) (Some page) (Some (s + 1)) (convertedType E MdNodeType_heading)
             (VString b),
           ProcessedNode (s + 5) (Some page) (Some (s + 3)) (convertedType E MdNodeType_heading)
             (VString c),
           ProcessedNode (s + 7) (Some page) (Some (s + 1)) (convertedType E MdNodeType_heading)
             (VString d),
           ProcessedNode (s + 9) (Some page) None (convertedType E MdNodeType_heading)
             (VString e)]"
proof (intro conjI impI)
  assume a: "ast_type n = MdNodeType_heading \<and> ast_depth n \<le> topDepth stack"
  then show eq: "popHeadings n stack =
      rev (dropWhile (\<lambda>e. ast_depth n \<le> pid_depth e) (rev stack))"
    by (simp add: popHeadings_dropWhile)
  show "popHeadings n stack = [] \<or> topDepth (popHeadings n stack) < ast_depth n"
    using topDepth_rev_dropWhile[of "ast_depth n" "rev stack"] eq by simp
next
  show "markdownToJson E [headingNode 1 a, headingNode 2 b, headingNode 3 c,
        headingNode 2 d, headingNode 1 e] page s =
     Some [ProcessedNode (s + 1) (Some page) None (convertedType E MdNodeType_heading) (VString a),
           ProcessedNode (s + 3) (Some page) (Some (s + 1)) (convertedType E MdNodeType_heading)
             (VString b),
           ProcessedNode (s + 5) (Some page) (Some (s + 3)) (convertedType E MdNodeType_heading)
             (VString c),
           ProcessedNode (s + 7) (Some page) (Some (s + 1)) (convertedType E MdNodeType_heading)
             (VString d),
           ProcessedNode (s + 9) (Some page) None (convertedType E MdNodeType_heading)
             (VString e)]"
    by (simp add: markdownToJson_def sourceNodeStep_def processRootNode_def popHeadings_def
        topDepth_def topId_def headingNode_def textNode_def
        selectProcessor_text selectProcessor_heading convertedType_text
        gatherValue_def gatherSiblings_def numeral_eq_Suc)
qed

text \<open>A heading of depth 2 arriving on the stack of depths 1, 2, 3.\<close>

theorem heading_stack_pops_witness:
  "popHeadings (headingNode 2 ''D'')
     [\<lparr>pid_id = 1, pid_depth = 1\<rparr>, \<lparr>pid_id = 3, pid_depth = 2\<rparr>, \<lparr>pid_id = 5, pid_depth = 3\<rparr>] =
     [\<lparr>pid_id = 1, pid_depth = 1\<rparr>] \<and>
   topDepth [\<lparr>pid_id = 1, pid_depth = 1\<rparr>] < ast_depth (headingNode 2 ''D'')"
proof -
  let ?stack = "[\<lparr>pid_id = 1, pid_depth = 1\<rparr>, \<lparr>pid_id = 3, pid_depth = 2\<rparr>,
      \<lparr>pid_id = 5, pid_depth = 3::nat\<rparr>]"
  have "ast_type (headingNode 2 ''D'') = MdNodeType_heading \<and>
      ast_depth (headingNode 2 ''D'') \<le> topDepth ?stack"
    by (simp add: headingNode_def topDepth_def)
  then have "popHeadings (headingNode 2 ''D'') ?stack =
      rev (dropWhile (\<lambda>e. ast_depth (headingNode 2 ''D'') \<le> pid_depth e) (rev ?stack))"
    using heading_stack_pops[of "headingNode 2 ''D''" ?stack] by blast
  then show ?thesis by (simp add: headingNode_def topDepth_def)
qed

end
